theory Spec2Isabelle
  imports Main
begin

section \<open>CSTR: lazily propagated spreadsheet-like Variables (cstr.mjs)\<close>

text \<open>
  The module keeps one \<open>ConstraintSystem\<close> object and any number of \<open>Variable\<close>
  objects, all mutated in place. The embedding passes the whole store explicitly:
  a Variable is a handle into \<open>heap\<close>, a Dependency is a record owned by the list
  it sits in, with an allocation number standing for its object identity.

  Formulas and daemons are JavaScript callables supplied by the caller. They call
  back into the engine, so they are embedded as terms of a small expression
  language whose interpreter \<open>exec\<close> is mutually recursive with the engine.
  A callable may run forever (a formula that re-marks and re-reads itself), so
  every function of the recursive nest takes fuel, and \<open>Timeout\<close> is the
  outcome of a run that does not finish within its fuel.
\<close>

subsection \<open>Values and user callables\<close>

type_synonym vid = nat

datatype val = Null | Num int

text \<open>JavaScript's ToNumber on the values modelled: \<open>null\<close> is \<open>0\<close>.\<close>

fun to_num :: "val \<Rightarrow> int" where
  "to_num Null = 0"
| "to_num (Num i) = i"

text \<open>
  The body of a callable. \<open>Get x\<close> is \<open>x.value\<close>, \<open>Peek x\<close> is \<open>x.peek()\<close>,
  \<open>SetValue x e\<close> is \<open>x.value = e\<close>, \<open>SetFormulaValue x e\<close> is
  \<open>x.formulaValue = e\<close>, \<open>SetFormula x f\<close> is \<open>x.formula = function() { return f }\<close>,
  \<open>AddDaemon d\<close> is \<open>addDaemon(function() { d })\<close>, \<open>Bump k\<close> is \<open>n++\<close> on the
  caller's own counter \<open>k\<close>, \<open>Counter k\<close> reads that counter, \<open>Emit e\<close> pushes a
  value on the caller's own array, \<open>Throw v\<close> is \<open>throw v\<close>, \<open>Seq a b\<close> is
  \<open>a; return b\<close>, and \<open>TryCatch a b\<close> is \<open>try { return a } catch (e) { return b }\<close>:
  the handler runs on the store as the exception left it.
\<close>

datatype expr =
    Lit val
  | Get vid
  | Peek vid
  | Mul expr expr
  | Add expr expr
  | SetValue vid expr
  | SetFormulaValue vid expr
  | SetFormula vid expr
  | AddDaemon expr
  | Bump nat
  | Counter nat
  | Emit expr
  | Throw val
  | Seq expr expr
  | TryCatch expr expr

subsection \<open>The objects\<close>

text \<open>class Dependency: \<open>variable\<close>, \<open>tick\<close>; \<open>d_id\<close> is the object's identity.\<close>

record dependency =
  d_id :: nat
  d_variable :: vid
  d_tick :: nat

text \<open>class Variable: \<open>_value\<close>, \<open>_formula\<close>, \<open>_thisFormula\<close>, \<open>_outOfDateDaemon\<close>,
  \<open>tick\<close>, \<open>_outOfDate\<close>, \<open>_dependents\<close>.\<close>

record variable =
  v_value :: val
  v_formula :: "expr option"
  v_thisFormula :: val
  v_outOfDateDaemon :: "expr option"
  tick :: nat
  v_outOfDate :: bool
  v_dependents :: "dependency list"

text \<open>
  class ConstraintSystem: \<open>demandingVariables\<close> (a stack, top at the end of the
  array), \<open>daemonQueue\<close>, \<open>executingDaemons\<close> (\<open>null\<close> is \<open>None\<close>). The rest of the
  record is the store the module's objects live in: the Variables, the next
  Dependency identity, and the caller's own counters and array.
\<close>

record sys =
  demandingVariables :: "vid list"
  daemonQueue :: "expr list"
  executingDaemons :: "expr list option"
  heap :: "vid \<Rightarrow> variable"
  next_dep :: nat
  globals :: "nat \<Rightarrow> int"
  emitted :: "val list"

datatype error = TypeError | Thrown val

datatype 'a outcome = Timeout | Raise error sys | Return 'a sys

text \<open>Sequencing: an exception or a timeout of the first part ends the whole.\<close>

definition and_then :: "'a outcome \<Rightarrow> ('a \<Rightarrow> sys \<Rightarrow> 'b outcome) \<Rightarrow> 'b outcome" where
  "and_then m f = (case m of Timeout \<Rightarrow> Timeout | Raise e s \<Rightarrow> Raise e s | Return x s \<Rightarrow> f x s)"

definition upd :: "vid \<Rightarrow> (variable \<Rightarrow> variable) \<Rightarrow> sys \<Rightarrow> sys" where
  "upd this f s = s\<lparr>heap := (heap s)(this := f (heap s this))\<rparr>"

subsection \<open>ConstraintSystem and Dependency\<close>

definition new_ConstraintSystem :: sys where
  "new_ConstraintSystem =
     \<lparr>demandingVariables = [], daemonQueue = [], executingDaemons = None,
      heap = (\<lambda>_. \<lparr>v_value = Null, v_formula = None, v_thisFormula = Null,
                    v_outOfDateDaemon = None, tick = 0, v_outOfDate = False,
                    v_dependents = []\<rparr>),
      next_dep = 0, globals = (\<lambda>_. 0), emitted = []\<rparr>"

definition addDaemon :: "expr \<Rightarrow> sys \<Rightarrow> sys" where
  "addDaemon daemon s = s\<lparr>daemonQueue := daemonQueue s @ [daemon]\<rparr>"

definition new_Dependency :: "vid \<Rightarrow> sys \<Rightarrow> dependency" where
  "new_Dependency var s =
     \<lparr>d_id = next_dep s, d_variable = var, d_tick = tick (heap s var) + 1\<rparr>"

definition dep_outOfDate :: "sys \<Rightarrow> dependency \<Rightarrow> bool" where
  "dep_outOfDate s dep \<longleftrightarrow> d_tick dep < tick (heap s (d_variable dep))"

subsection \<open>Variable: the parts that call no callable\<close>

definition new_Variable :: "vid \<Rightarrow> val \<Rightarrow> expr option \<Rightarrow> val \<Rightarrow> expr option \<Rightarrow> sys \<Rightarrow> sys" where
  "new_Variable this val0 formula thisFormula outOfDateDaemon s =
     s\<lparr>heap := (heap s)(this :=
        \<lparr>v_value = val0, v_formula = formula, v_thisFormula = thisFormula,
         v_outOfDateDaemon = outOfDateDaemon, tick = 0,
         v_outOfDate = (formula \<noteq> None), v_dependents = []\<rparr>)\<rparr>"

definition peek :: "vid \<Rightarrow> sys \<Rightarrow> val" where
  "peek this s = v_value (heap s this)"

definition set_thisFormula :: "vid \<Rightarrow> val \<Rightarrow> sys \<Rightarrow> sys" where
  "set_thisFormula this thisFormula s = upd this (\<lambda>v. v\<lparr>v_thisFormula := thisFormula\<rparr>) s"

definition set_outOfDateDaemon :: "vid \<Rightarrow> expr option \<Rightarrow> sys \<Rightarrow> sys" where
  "set_outOfDateDaemon this daemon s = upd this (\<lambda>v. v\<lparr>v_outOfDateDaemon := daemon\<rparr>) s"

text \<open>\<open>copy()\<close> constructs the new object at the handle \<open>fresh\<close>.\<close>

definition copy :: "vid \<Rightarrow> vid \<Rightarrow> sys \<Rightarrow> sys" where
  "copy this fresh s =
     (if v_formula (heap s this) = None
      then new_Variable fresh (v_value (heap s this)) None Null None s
      else new_Variable fresh (v_value (heap s this)) (v_formula (heap s this))
             (v_thisFormula (heap s this)) (v_outOfDateDaemon (heap s this)) s)"

text \<open>
  \<open>updateDependencies\<close>: \<open>find\<close> returns the first edge whose \<open>variable\<close> is the
  demander; that object gets the new tick.
\<close>

definition updateDependencies :: "vid \<Rightarrow> sys \<Rightarrow> sys" where
  "updateDependencies this s =
     (if length (demandingVariables s) > 0 then
        let demandingVariable = last (demandingVariables s);
            deps = v_dependents (heap s this)
        in (case find (\<lambda>dependent. d_variable dependent = demandingVariable) deps of
              None \<Rightarrow>
                (upd this (\<lambda>v. v\<lparr>v_dependents := deps @ [new_Dependency demandingVariable s]\<rparr>) s)
                  \<lparr>next_dep := Suc (next_dep s)\<rparr>
            | Some dep \<Rightarrow>
                upd this (\<lambda>v. v\<lparr>v_dependents :=
                  deps[length (takeWhile (\<lambda>dependent. d_variable dependent \<noteq> demandingVariable) deps)
                         := dep\<lparr>d_tick := tick (heap s demandingVariable) + 1\<rparr>]\<rparr>) s)
      else s)"

text \<open>
  The second loop of \<open>mark\<close>: \<open>indexOf\<close> compares object identity and
  \<open>splice(pos, 1)\<close> with \<open>pos = -1\<close> (not found) removes the last element.
\<close>

fun indexOf :: "dependency list \<Rightarrow> dependency \<Rightarrow> nat option" where
  "indexOf [] dep = None"
| "indexOf (d # ds) dep =
     (if d_id d = d_id dep then Some 0 else map_option Suc (indexOf ds dep))"

definition splice1 :: "dependency list \<Rightarrow> nat option \<Rightarrow> dependency list" where
  "splice1 deps pos = (case pos of None \<Rightarrow> butlast deps | Some i \<Rightarrow> take i deps @ drop (Suc i) deps)"

definition remove_all :: "dependency list \<Rightarrow> dependency list \<Rightarrow> dependency list" where
  "remove_all removals deps = foldl (\<lambda>ds dep. splice1 ds (indexOf ds dep)) deps removals"

subsection \<open>The engine\<close>

text \<open>
  Every engine function that invokes a callable takes \<open>run\<close>, the invocation of a
  callable's body on the store, as its first argument after the fuel.
  \<open>mark_forEach\<close> is \<open>this._dependents.forEach\<close>: the bound \<open>len\<close> is the length
  when the loop starts, each index is read from the array as it is when reached,
  and an index the array no longer has is skipped. \<open>Dependency.mark\<close> only forwards
  to \<open>Variable.mark\<close>. \<open>markedVariables\<close> is one array shared by the whole pass, so
  \<open>mark\<close> returns it. The recursion of \<open>mark\<close> through the dependents has no
  bound in a store with infinitely many Variables, so it takes fuel.
\<close>

type_synonym runner = "expr \<Rightarrow> sys \<Rightarrow> val outcome"

definition executeOutOfDateDaemon :: "runner \<Rightarrow> vid \<Rightarrow> sys \<Rightarrow> unit outcome" where
  "executeOutOfDateDaemon run this s =
     (case v_outOfDateDaemon (heap s this) of
        None \<Rightarrow> Return () s
      | Some daemon \<Rightarrow> and_then (run daemon s) (\<lambda>_ s1. Return () s1))"

fun mark :: "nat \<Rightarrow> runner \<Rightarrow> vid \<Rightarrow> vid list \<Rightarrow> sys \<Rightarrow> (vid list) outcome"
  and mark_forEach :: "nat \<Rightarrow> runner \<Rightarrow> vid \<Rightarrow> nat \<Rightarrow> nat \<Rightarrow> vid list \<Rightarrow> dependency list \<Rightarrow> sys
                         \<Rightarrow> (vid list \<times> dependency list) outcome"
where
  "mark 0 run this markedVariables s = Timeout"
| "mark (Suc n) run this markedVariables s =
     (if \<not> v_outOfDate (heap s this) \<and> this \<notin> set markedVariables then
        and_then (executeOutOfDateDaemon run this (upd this (\<lambda>v. v\<lparr>v_outOfDate := True\<rparr>) s))
          (\<lambda>_ s1.
        and_then (mark_forEach n run this 0 (length (v_dependents (heap s1 this)))
                    (markedVariables @ [this]) [] s1)
          (\<lambda>(marked, removals) s2.
             Return (butlast marked)
               (upd this (\<lambda>v. v\<lparr>v_dependents := remove_all removals (v_dependents v)\<rparr>) s2)))
      else Return markedVariables s)"
| "mark_forEach 0 run this k len marked removals s = Timeout"
| "mark_forEach (Suc n) run this k len marked removals s =
     (if k < len then
        (if k < length (v_dependents (heap s this)) then
           let dep = v_dependents (heap s this) ! k in
           if dep_outOfDate s dep
           then mark_forEach n run this (Suc k) len marked (removals @ [dep]) s
           else and_then (mark n run (d_variable dep) marked s)
                  (\<lambda>marked1 s1. mark_forEach n run this (Suc k) len marked1 removals s1)
         else mark_forEach n run this (Suc k) len marked removals s)
      else Return (marked, removals) s)"

definition set_value :: "nat \<Rightarrow> runner \<Rightarrow> vid \<Rightarrow> val \<Rightarrow> sys \<Rightarrow> unit outcome" where
  "set_value n run this val s =
     and_then (mark n run this []
                 (upd this (\<lambda>v. v\<lparr>v_value := val, v_formula := None, v_outOfDateDaemon := None\<rparr>) s))
       (\<lambda>_ s1. Return () (upd this (\<lambda>v. v\<lparr>v_outOfDate := False\<rparr>) s1))"

definition set_formulaValue :: "nat \<Rightarrow> runner \<Rightarrow> vid \<Rightarrow> val \<Rightarrow> sys \<Rightarrow> unit outcome" where
  "set_formulaValue n run this val s =
     and_then (mark n run this [] (upd this (\<lambda>v. v\<lparr>v_value := val\<rparr>) s))
       (\<lambda>_ s1. Return () (upd this (\<lambda>v. v\<lparr>v_outOfDate := False\<rparr>) s1))"

definition set_formula :: "nat \<Rightarrow> runner \<Rightarrow> vid \<Rightarrow> expr \<Rightarrow> sys \<Rightarrow> unit outcome" where
  "set_formula n run this formula s =
     and_then (mark n run this [] (upd this (\<lambda>v. v\<lparr>v_formula := Some formula\<rparr>) s))
       (\<lambda>_ s1. Return () s1)"

text \<open>\<open>this._formula.bind\<close> on \<open>null\<close> throws a TypeError.\<close>

definition computeFormula :: "runner \<Rightarrow> vid \<Rightarrow> sys \<Rightarrow> unit outcome" where
  "computeFormula run this s =
     (if v_outOfDate (heap s this) then
        let s1 = s\<lparr>demandingVariables := demandingVariables s @ [this]\<rparr>;
            s2 = upd this (\<lambda>v. v\<lparr>v_outOfDate := False\<rparr>) s1
        in (case v_formula (heap s2 this) of
              None \<Rightarrow> Raise TypeError s2
            | Some formula \<Rightarrow>
                and_then (run formula s2) (\<lambda>r s3.
                  let s4 = upd this (\<lambda>v. v\<lparr>v_value := r\<rparr>) s3;
                      s5 = upd this (\<lambda>v. v\<lparr>tick := tick v + 1\<rparr>) s4
                  in Return () (s5\<lparr>demandingVariables := butlast (demandingVariables s5)\<rparr>)))
      else Return () s)"

definition sweep :: "runner \<Rightarrow> vid \<Rightarrow> sys \<Rightarrow> unit outcome" where
  "sweep run this s = computeFormula run this (updateDependencies this s)"

text \<open>\<open>executingDaemons.forEach\<close>: the array taken from the queue is no longer
  reachable from \<open>addDaemon\<close>, so the loop runs over a fixed list.\<close>

fun daemons_forEach :: "runner \<Rightarrow> expr list \<Rightarrow> sys \<Rightarrow> unit outcome" where
  "daemons_forEach run [] s = Return () s"
| "daemons_forEach run (daemon # ds) s =
     and_then (run daemon s) (\<lambda>_ s1. daemons_forEach run ds s1)"

definition executeDaemons :: "runner \<Rightarrow> sys \<Rightarrow> unit outcome" where
  "executeDaemons run s =
     (if length (daemonQueue s) > 0 \<and> executingDaemons s = None then
        and_then (daemons_forEach run (daemonQueue s)
                    (s\<lparr>executingDaemons := Some (daemonQueue s), daemonQueue := []\<rparr>))
          (\<lambda>_ s1. Return () (s1\<lparr>executingDaemons := None\<rparr>))
      else Return () s)"

definition get_value :: "runner \<Rightarrow> vid \<Rightarrow> sys \<Rightarrow> val outcome" where
  "get_value run this s =
     and_then (executeDaemons run s) (\<lambda>_ s1.
     and_then (sweep run this s1) (\<lambda>_ s2. Return (v_value (heap s2 this)) s2))"

subsection \<open>Running a callable\<close>

text \<open>
  \<open>exec n\<close> runs a callable's body; the callables it reaches through the engine
  run with one unit of fuel less, and so does each \<open>mark\<close> pass it starts.
\<close>

fun exec :: "nat \<Rightarrow> expr \<Rightarrow> sys \<Rightarrow> val outcome" where
  "exec 0 e s = Timeout"
| "exec (Suc n) (Lit v) s = Return v s"
| "exec (Suc n) (Get x) s = get_value (\<lambda>e s'. exec n e s') x s"
| "exec (Suc n) (Peek x) s = Return (peek x s) s"
| "exec (Suc n) (Mul a b) s =
     and_then (exec n a s) (\<lambda>va s1.
     and_then (exec n b s1) (\<lambda>vb s2. Return (Num (to_num va * to_num vb)) s2))"
| "exec (Suc n) (Add a b) s =
     and_then (exec n a s) (\<lambda>va s1.
     and_then (exec n b s1) (\<lambda>vb s2. Return (Num (to_num va + to_num vb)) s2))"
| "exec (Suc n) (SetValue x e) s =
     and_then (exec n e s) (\<lambda>v s1.
     and_then (set_value n (\<lambda>e s'. exec n e s') x v s1) (\<lambda>_ s2. Return v s2))"
| "exec (Suc n) (SetFormulaValue x e) s =
     and_then (exec n e s) (\<lambda>v s1.
     and_then (set_formulaValue n (\<lambda>e s'. exec n e s') x v s1) (\<lambda>_ s2. Return v s2))"
| "exec (Suc n) (SetFormula x f) s =
     and_then (set_formula n (\<lambda>e s'. exec n e s') x f s) (\<lambda>_ s1. Return Null s1)"
| "exec (Suc n) (AddDaemon d) s = Return Null (addDaemon d s)"
| "exec (Suc n) (Bump k) s =
     Return (Num (globals s k)) (s\<lparr>globals := (globals s)(k := globals s k + 1)\<rparr>)"
| "exec (Suc n) (Counter k) s = Return (Num (globals s k)) s"
| "exec (Suc n) (Emit e) s =
     and_then (exec n e s) (\<lambda>v s1.
       Return (Num (int (length (emitted s1)) + 1)) (s1\<lparr>emitted := emitted s1 @ [v]\<rparr>))"
| "exec (Suc n) (Throw v) s = Raise (Thrown v) s"
| "exec (Suc n) (Seq a b) s = and_then (exec n a s) (\<lambda>_ s1. exec n b s1)"
| "exec (Suc n) (TryCatch a b) s =
     (case exec n a s of
        Timeout \<Rightarrow> Timeout
      | Raise e s1 \<Rightarrow> exec n b s1
      | Return v s1 \<Rightarrow> Return v s1)"

subsection \<open>Scripts: statements at the top level of a program\<close>

text \<open>
  A script runs its statements one after the other on the same store and records
  what each one gave, as a test that catches exceptions does.
\<close>

datatype observation = Value val | Error error | Diverged

fun run_script :: "nat \<Rightarrow> expr list \<Rightarrow> sys \<Rightarrow> observation list \<times> sys option" where
  "run_script n [] s = ([], Some s)"
| "run_script n (c # cs) s =
     (case exec n c s of
        Timeout \<Rightarrow> ([Diverged], None)
      | Raise e s1 \<Rightarrow> (let (os, r) = run_script n cs s1 in (Error e # os, r))
      | Return v s1 \<Rightarrow> (let (os, r) = run_script n cs s1 in (Value v # os, r)))"

subsection \<open>The programs of the specification's scenarios\<close>

text \<open>
  Scenario 1: \<open>x = new Variable({value: 0})\<close> at handle 0,
  \<open>y = new Variable({formula: () => 10 * x.value, outOfDateDaemon: () => n++})\<close> at
  handle 1, \<open>n\<close> is counter 0.
\<close>

definition scenario1 :: sys where
  "scenario1 =
     new_Variable 1 Null (Some (Mul (Lit (Num 10)) (Get 0))) Null (Some (Bump 0))
       (new_Variable 0 (Num 0) None Null None new_ConstraintSystem)"

text \<open>
  A Variable that lost its formula: \<open>u = new Variable({value: 0})\<close> at handle 0 and
  \<open>v = new Variable({formula: () => u.value})\<close> at handle 1.
\<close>

definition former_formula :: sys where
  "former_formula =
     new_Variable 1 Null (Some (Get 0)) Null None
       (new_Variable 0 (Num 0) None Null None new_ConstraintSystem)"


text \<open>
  A system daemon that throws, between two that push on the caller's array:
  \<open>addDaemon(() => out.push(1)); addDaemon(() => { throw 7 }); addDaemon(() => out.push(2))\<close>,
  and \<open>x = new Variable({value: 0})\<close> at handle 0.
\<close>

definition throwing_daemon :: sys where
  "throwing_daemon =
     addDaemon (Emit (Lit (Num 2))) (addDaemon (Throw (Num 7)) (addDaemon (Emit (Lit (Num 1)))
       (new_Variable 0 (Num 0) None Null None new_ConstraintSystem)))"

section \<open>Notions used in the properties\<close>

subsection \<open>What every run keeps\<close>

text \<open>
  \<open>keeps Q E s m\<close>: the outcome \<open>m\<close> of a run started in \<open>s\<close> ends in a state
  related to \<open>s\<close> by \<open>Q\<close> when it returns and by \<open>E\<close> when it throws. \<open>enter\<close> and
  \<open>leave\<close> are the assignments of \<open>computeFormula\<close> before and after the call of
  the formula, \<open>take_queue\<close> those of \<open>executeDaemons\<close> before its loop.
  \<open>engine_rule Q E\<close> lists what \<open>Q\<close> and \<open>E\<close> must satisfy at each assignment of
  the engine for every run of every callable to keep them; a callable that
  catches an exception goes on from the state the exception left, so a run that
  follows a throw must keep them as well.
\<close>

definition keeps :: "(sys \<Rightarrow> sys \<Rightarrow> bool) \<Rightarrow> (sys \<Rightarrow> sys \<Rightarrow> bool) \<Rightarrow> sys \<Rightarrow> 'a outcome \<Rightarrow> bool" where
  "keeps Q E s m = (case m of Timeout \<Rightarrow> True | Raise e r \<Rightarrow> E s r | Return x r \<Rightarrow> Q s r)"

definition enter :: "vid \<Rightarrow> sys \<Rightarrow> sys" where
  "enter this s = upd this (\<lambda>v. v\<lparr>v_outOfDate := False\<rparr>) (s\<lparr>demandingVariables := demandingVariables s @ [this]\<rparr>)"

definition leave :: "vid \<Rightarrow> val \<Rightarrow> sys \<Rightarrow> sys" where
  "leave this r s =
     (let s4 = upd this (\<lambda>v. v\<lparr>v_value := r\<rparr>) s;
          s5 = upd this (\<lambda>v. v\<lparr>tick := tick v + 1\<rparr>) s4
      in s5\<lparr>demandingVariables := butlast (demandingVariables s5)\<rparr>)"

definition take_queue :: "sys \<Rightarrow> sys" where
  "take_queue s = s\<lparr>executingDaemons := Some (daemonQueue s), daemonQueue := []\<rparr>"

definition engine_rule :: "(sys \<Rightarrow> sys \<Rightarrow> bool) \<Rightarrow> (sys \<Rightarrow> sys \<Rightarrow> bool) \<Rightarrow> bool" where
  "engine_rule Q E \<longleftrightarrow>
     (\<forall>s. Q s s) \<and> (\<forall>s. E s s) \<and>
     (\<forall>s r t. Q s r \<and> Q r t \<longrightarrow> Q s t) \<and>
     (\<forall>s r t. Q s r \<and> E r t \<longrightarrow> E s t) \<and>
     (\<forall>s r t. E s r \<and> Q r t \<longrightarrow> Q s t) \<and>
     (\<forall>s r t. E s r \<and> E r t \<longrightarrow> E s t) \<and>
     (\<forall>s x b. Q s (upd x (\<lambda>v. v\<lparr>v_outOfDate := b\<rparr>) s)) \<and>
     (\<forall>s x w. Q s (upd x (\<lambda>v. v\<lparr>v_value := w\<rparr>) s)) \<and>
     (\<forall>s x f. Q s (upd x (\<lambda>v. v\<lparr>v_formula := Some f\<rparr>) s)) \<and>
     (\<forall>s x w. Q s (upd x (\<lambda>v. v\<lparr>v_value := w, v_formula := None, v_outOfDateDaemon := None\<rparr>) s)) \<and>
     (\<forall>s x rem. Q s (upd x (\<lambda>v. v\<lparr>v_dependents := remove_all rem (v_dependents v)\<rparr>) s)) \<and>
     (\<forall>s x. Q s (updateDependencies x s)) \<and>
     (\<forall>s d. Q s (addDaemon d s)) \<and>
     (\<forall>s g. Q s (s\<lparr>globals := g\<rparr>)) \<and>
     (\<forall>s l. Q s (s\<lparr>emitted := l\<rparr>)) \<and>
     (\<forall>s x r w. v_outOfDate (heap s x) \<and> Q (enter x s) r \<longrightarrow> Q s (leave x w r)) \<and>
     (\<forall>s x r. v_outOfDate (heap s x) \<and> E (enter x s) r \<longrightarrow> E s r) \<and>
     (\<forall>s r. daemonQueue s \<noteq> [] \<and> executingDaemons s = None \<and> Q (take_queue s) r
            \<longrightarrow> Q s (r\<lparr>executingDaemons := None\<rparr>)) \<and>
     (\<forall>s r. daemonQueue s \<noteq> [] \<and> executingDaemons s = None \<and> E (take_queue s) r \<longrightarrow> E s r)"


definition run_keeps :: "(sys \<Rightarrow> sys \<Rightarrow> bool) \<Rightarrow> (sys \<Rightarrow> sys \<Rightarrow> bool) \<Rightarrow> runner \<Rightarrow> bool" where
  "run_keeps Q E run \<longleftrightarrow> (\<forall>e s. keeps Q E s (run e s))"

subsection \<open>Relations between the state before and after a run\<close>

text \<open>
  \<open>ticks_le\<close>: no tick has decreased. \<open>deduplicated\<close>: no \<open>_dependents\<close> array
  holds two edges to the same Variable. \<open>flush_stuck\<close>: if \<open>executingDaemons\<close> was
  set it is unchanged and the queue has only grown. \<open>stack_grown\<close>:
  \<open>demandingVariables\<close> still starts with what it held, and may hold more on top.
\<close>

definition ticks_le :: "sys \<Rightarrow> sys \<Rightarrow> bool" where
  "ticks_le s r \<longleftrightarrow> (\<forall>x. tick (heap s x) \<le> tick (heap r x))"

definition deduplicated :: "sys \<Rightarrow> bool" where
  "deduplicated s \<longleftrightarrow> (\<forall>x. distinct (map d_variable (v_dependents (heap s x))))"

definition keeps_deduplicated :: "sys \<Rightarrow> sys \<Rightarrow> bool" where
  "keeps_deduplicated s r \<longleftrightarrow> (deduplicated s \<longrightarrow> deduplicated r)"

definition flush_stuck :: "sys \<Rightarrow> sys \<Rightarrow> bool" where
  "flush_stuck s r \<longleftrightarrow>
     (executingDaemons s \<noteq> None \<longrightarrow>
        executingDaemons r = executingDaemons s \<and>
        (\<exists>added. daemonQueue r = daemonQueue s @ added))"


subsection \<open>The effect of one mark pass\<close>

text \<open>
  The caller's own state is its counters and its array. An outOfDateDaemon is
  side-effect-only when it calls nothing of the module: it returns, and all it
  changes is the caller's own state, as a function of that state alone.
  \<open>side_effect_only run eff s\<close> says so of every daemon of \<open>s\<close> under the runner
  \<open>run\<close>, \<open>eff x\<close> being what the daemon of \<open>x\<close> does to the caller's state;
  \<open>fire eff s x\<close> is that effect, and nothing for a Variable without a daemon.
  \<open>inert d\<close> is a syntactic class of such callables: those built from the
  caller's counters and array only; \<open>effect d\<close> is the value and the effect of
  an inert callable, and \<open>cost d\<close> is fuel that suffices to run it.
  \<open>inert_daemons k s\<close> says that every daemon of \<open>s\<close> is inert and runs with fuel
  \<open>k\<close>, and \<open>daemon_effect s x\<close> is then the effect of the daemon of \<open>x\<close>.
\<close>

type_synonym caller = "(nat \<Rightarrow> int) \<times> val list"

definition caller :: "sys \<Rightarrow> caller" where
  "caller s = (globals s, emitted s)"

definition set_caller :: "caller \<Rightarrow> sys \<Rightarrow> sys" where
  "set_caller c s = s\<lparr>globals := fst c, emitted := snd c\<rparr>"

definition side_effect_only :: "runner \<Rightarrow> (vid \<Rightarrow> caller \<Rightarrow> caller) \<Rightarrow> sys \<Rightarrow> bool" where
  "side_effect_only run eff s \<longleftrightarrow>
     (\<forall>x d. v_outOfDateDaemon (heap s x) = Some d \<longrightarrow>
        (\<forall>t. \<exists>v. run d t = Return v (set_caller (eff x (caller t)) t)))"

definition fire :: "(vid \<Rightarrow> caller \<Rightarrow> caller) \<Rightarrow> sys \<Rightarrow> vid \<Rightarrow> caller \<Rightarrow> caller" where
  "fire eff s x c = (if v_outOfDateDaemon (heap s x) = None then c else eff x c)"

fun inert :: "expr \<Rightarrow> bool" where
  "inert (Lit v) = True"
| "inert (Bump k) = True"
| "inert (Counter k) = True"
| "inert (Emit e) = inert e"
| "inert (Mul a b) = (inert a \<and> inert b)"
| "inert (Add a b) = (inert a \<and> inert b)"
| "inert (Seq a b) = (inert a \<and> inert b)"
| "inert _ = False"

fun effect :: "expr \<Rightarrow> caller \<Rightarrow> val \<times> caller" where
  "effect (Lit v) c = (v, c)"
| "effect (Bump k) c = (Num (fst c k), ((fst c)(k := fst c k + 1), snd c))"
| "effect (Counter k) c = (Num (fst c k), c)"
| "effect (Emit e) c =
     (let (v, c1) = effect e c in (Num (int (length (snd c1)) + 1), (fst c1, snd c1 @ [v])))"
| "effect (Mul a b) c =
     (let (va, c1) = effect a c; (vb, c2) = effect b c1 in (Num (to_num va * to_num vb), c2))"
| "effect (Add a b) c =
     (let (va, c1) = effect a c; (vb, c2) = effect b c1 in (Num (to_num va + to_num vb), c2))"
| "effect (Seq a b) c = (let (va, c1) = effect a c in effect b c1)"
| "effect _ c = (Null, c)"

fun cost :: "expr \<Rightarrow> nat" where
  "cost (Mul a b) = Suc (max (cost a) (cost b))"
| "cost (Add a b) = Suc (max (cost a) (cost b))"
| "cost (Seq a b) = Suc (max (cost a) (cost b))"
| "cost (Emit e) = Suc (cost e)"
| "cost (AddDaemon d) = Suc (cost d)"
| "cost _ = 1"

definition daemon_effect :: "sys \<Rightarrow> vid \<Rightarrow> caller \<Rightarrow> caller" where
  "daemon_effect s x c =
     (case v_outOfDateDaemon (heap s x) of None \<Rightarrow> c | Some d \<Rightarrow> snd (effect d c))"

definition inert_daemons :: "nat \<Rightarrow> sys \<Rightarrow> bool" where
  "inert_daemons k s \<longleftrightarrow>
     (\<forall>x d. v_outOfDateDaemon (heap s x) = Some d \<longrightarrow> inert d \<and> cost d \<le> k)"

text \<open>
  \<open>fresh s\<close> are the Variables not out of date.
  \<open>mark_pass s r\<close>: \<open>r\<close> differs from \<open>s\<close> only by Variables that went out of
  date, by the \<open>_dependents\<close> of those Variables, and by the caller's own state.
  \<open>fired eff order s r\<close>: \<open>order\<close> lists the Variables that went out of date, each
  once, and the caller's state in \<open>r\<close> is what the daemons of these Variables,
  run one after the other in that order, make of the caller's state in \<open>s\<close>.
  \<open>followed s r\<close>: every current edge of a Variable that went out of date leads
  to a Variable that is out of date in \<open>r\<close>. \<open>reach s x y\<close>: \<open>y\<close> is reached from
  \<open>x\<close> through current edges along Variables that are not out of date in \<open>s\<close>.
  \<open>closed_in V s\<close>: the edges of the fresh Variables of \<open>V\<close> stay in \<open>V\<close>.
  \<open>marked_now\<close> is the state after the first three statements of the body of
  \<open>mark\<close>; \<open>mark_ok\<close> and \<open>loop_ok\<close> state what \<open>mark\<close> and its loop do with a
  given amount of fuel.
\<close>

definition fresh :: "sys \<Rightarrow> vid set" where
  "fresh s = {x. \<not> v_outOfDate (heap s x)}"

definition mark_pass :: "sys \<Rightarrow> sys \<Rightarrow> bool" where
  "mark_pass s r \<longleftrightarrow>
     demandingVariables r = demandingVariables s \<and> daemonQueue r = daemonQueue s \<and>
     executingDaemons r = executingDaemons s \<and> next_dep r = next_dep s \<and>
     (\<forall>x. v_value (heap r x) = v_value (heap s x) \<and> v_formula (heap r x) = v_formula (heap s x) \<and>
          v_thisFormula (heap r x) = v_thisFormula (heap s x) \<and>
          v_outOfDateDaemon (heap r x) = v_outOfDateDaemon (heap s x) \<and>
          tick (heap r x) = tick (heap s x) \<and>
          (v_outOfDate (heap s x) \<longrightarrow> v_outOfDate (heap r x)) \<and>
          (v_outOfDate (heap s x) \<or> \<not> v_outOfDate (heap r x) \<longrightarrow>
             v_dependents (heap r x) = v_dependents (heap s x)))"

definition fired :: "(vid \<Rightarrow> caller \<Rightarrow> caller) \<Rightarrow> vid list \<Rightarrow> sys \<Rightarrow> sys \<Rightarrow> bool" where
  "fired eff order s r \<longleftrightarrow>
     distinct order \<and>
     (\<forall>x. x \<in> set order \<longleftrightarrow> \<not> v_outOfDate (heap s x) \<and> v_outOfDate (heap r x)) \<and>
     caller r = foldl (\<lambda>c x. fire eff s x c) (caller s) order"

definition followed :: "sys \<Rightarrow> sys \<Rightarrow> bool" where
  "followed s r \<longleftrightarrow>
     (\<forall>x dep. \<not> v_outOfDate (heap s x) \<and> v_outOfDate (heap r x) \<and>
              dep \<in> set (v_dependents (heap s x)) \<and> \<not> dep_outOfDate s dep
              \<longrightarrow> v_outOfDate (heap r (d_variable dep)))"

definition closed_in :: "vid set \<Rightarrow> sys \<Rightarrow> bool" where
  "closed_in V s \<longleftrightarrow>
     (\<forall>y\<in>V. \<not> v_outOfDate (heap s y) \<longrightarrow>
        (\<forall>dep\<in>set (v_dependents (heap s y)). d_variable dep \<in> V))"

inductive reach :: "sys \<Rightarrow> vid \<Rightarrow> vid \<Rightarrow> bool" for s :: sys and x :: vid where
  start: "\<not> v_outOfDate (heap s x) \<Longrightarrow> reach s x x"
| edge: "reach s x u \<Longrightarrow> dep \<in> set (v_dependents (heap s u)) \<Longrightarrow> \<not> dep_outOfDate s dep \<Longrightarrow>
         \<not> v_outOfDate (heap s (d_variable dep)) \<Longrightarrow> reach s x (d_variable dep)"

definition marked_now :: "(vid \<Rightarrow> caller \<Rightarrow> caller) \<Rightarrow> vid \<Rightarrow> sys \<Rightarrow> sys" where
  "marked_now eff this s =
     set_caller (fire eff s this (caller s)) (upd this (\<lambda>v. v\<lparr>v_outOfDate := True\<rparr>) s)"

definition mark_ok :: "runner \<Rightarrow> (vid \<Rightarrow> caller \<Rightarrow> caller) \<Rightarrow> nat \<Rightarrow> bool" where
  "mark_ok run eff n \<longleftrightarrow>
     (\<forall>this marked s. side_effect_only run eff s \<longrightarrow> (\<forall>m\<in>set marked. v_outOfDate (heap s m)) \<longrightarrow>
        mark n run this marked s = Timeout \<or>
        (\<exists>r order. mark n run this marked s = Return marked r \<and> mark_pass s r \<and> followed s r \<and>
             v_outOfDate (heap r this) \<and> fired eff order s r \<and>
             (\<forall>y\<in>set order. reach s this y)))"

definition loop_ok :: "runner \<Rightarrow> (vid \<Rightarrow> caller \<Rightarrow> caller) \<Rightarrow> nat \<Rightarrow> bool" where
  "loop_ok run eff n \<longleftrightarrow>
     (\<forall>this k marked removals s.
        side_effect_only run eff s \<longrightarrow> v_outOfDate (heap s this) \<longrightarrow>
        (\<forall>m\<in>set marked. v_outOfDate (heap s m)) \<longrightarrow>
        mark_forEach n run this k (length (v_dependents (heap s this))) marked removals s = Timeout \<or>
        (\<exists>removals' r order.
           mark_forEach n run this k (length (v_dependents (heap s this))) marked removals s
             = Return (marked, removals') r \<and>
           mark_pass s r \<and> followed s r \<and>
           (\<forall>i. k \<le> i \<and> i < length (v_dependents (heap s this)) \<and>
                \<not> dep_outOfDate s (v_dependents (heap s this) ! i) \<longrightarrow>
                v_outOfDate (heap r (d_variable (v_dependents (heap s this) ! i)))) \<and>
           fired eff order s r \<and>
           (\<forall>y\<in>set order. \<exists>i. k \<le> i \<and> i < length (v_dependents (heap s this)) \<and>
                \<not> dep_outOfDate s (v_dependents (heap s this) ! i) \<and>
                reach s (d_variable (v_dependents (heap s this) ! i)) y)))"

subsection \<open>Further programs\<close>




text \<open>
  Scenario 1 after \<open>y.value\<close> has been read and \<open>x.value = 1\<close> has marked \<open>y\<close>.
\<close>

definition scenario1_marked :: sys where
  "scenario1_marked =
     (case snd (run_script 10 [Get 1, SetValue 0 (Lit (Num 1))] scenario1) of
        Some r \<Rightarrow> r | None \<Rightarrow> scenario1)"

text \<open>
  A diamond: \<open>x = new Variable({value: 0})\<close> at handle 0, \<open>a\<close> and \<open>b\<close> with the
  formula \<open>() => x.value\<close> at handles 1 and 2, \<open>d\<close> with the formula
  \<open>() => a.value + b.value\<close> at handle 3; the daemon of the Variable at handle
  \<open>i\<close> is \<open>() => n_i++\<close>. \<open>diamond_read\<close> is the state after \<open>d.value\<close> has been
  read once.
\<close>

definition diamond :: sys where
  "diamond =
     new_Variable 3 Null (Some (Add (Get 1) (Get 2))) Null (Some (Bump 3))
       (new_Variable 2 Null (Some (Get 0)) Null (Some (Bump 2))
         (new_Variable 1 Null (Some (Get 0)) Null (Some (Bump 1))
           (new_Variable 0 (Num 0) None Null None new_ConstraintSystem)))"

definition diamond_read :: sys where
  "diamond_read = (case exec 10 (Get 3) diamond of Return v r \<Rightarrow> r | _ \<Rightarrow> diamond)"

text \<open>
  A chain: \<open>z = new Variable({value: 0})\<close> at handle 0,
  \<open>x = new Variable({formula: () => z.value})\<close> at handle 1 and
  \<open>y = new Variable({formula: () => x.value, outOfDateDaemon: () => n++})\<close> at
  handle 2, \<open>n\<close> is counter 2.
\<close>

definition chain :: sys where
  "chain =
     new_Variable 2 Null (Some (Get 1)) Null (Some (Bump 2))
       (new_Variable 1 Null (Some (Get 0)) Null None
         (new_Variable 0 (Num 0) None Null None new_ConstraintSystem))"

text \<open>
  The chain after \<open>y.value\<close>, \<open>z.value = 1\<close> and \<open>y.formulaValue = 5\<close>: \<open>x\<close> is
  out of date, \<open>y\<close> is not, and the edge from \<open>x\<close> to \<open>y\<close> is current.
\<close>

definition chain_stale :: sys where
  "chain_stale =
     (case snd (run_script 10 [Get 2, SetValue 0 (Lit (Num 1)), SetFormulaValue 2 (Lit (Num 5))] chain) of
        Some r \<Rightarrow> r | None \<Rightarrow> chain)"

text \<open>
  A diamond with a daemon that calls into the module: as \<open>diamond\<close>, but \<open>a\<close>
  has no daemon, the daemon of \<open>b\<close> is \<open>() => { d.formulaValue = 0 }\<close>, and the
  daemon of \<open>d\<close> is \<open>() => n++\<close>, \<open>n\<close> is counter 3.
\<close>

definition meddling_daemon :: sys where
  "meddling_daemon =
     new_Variable 3 Null (Some (Add (Get 1) (Get 2))) Null (Some (Bump 3))
       (new_Variable 2 Null (Some (Get 0)) Null (Some (SetFormulaValue 3 (Lit (Num 0))))
         (new_Variable 1 Null (Some (Get 0)) Null None
           (new_Variable 0 (Num 0) None Null None new_ConstraintSystem)))"

text \<open>
  A daemon that reads a Variable: \<open>x = new Variable({value: 0})\<close> at handle 0,
  \<open>y = new Variable({formula: () => x.value, outOfDateDaemon: () => { w.value }})\<close>
  at handle 1 and \<open>w = new Variable({formula: () => 3})\<close> at handle 2.
\<close>

definition reading_daemon :: sys where
  "reading_daemon =
     new_Variable 2 Null (Some (Lit (Num 3))) Null None
       (new_Variable 1 Null (Some (Get 0)) Null (Some (Get 2))
         (new_Variable 0 (Num 0) None Null None new_ConstraintSystem))"

subsection \<open>System daemons whose effect can be read off their text\<close>

text \<open>
  \<open>simple s d\<close>: the daemon \<open>d\<close> pushes literals on the caller's array, registers
  further such daemons, and reads Variables that are not out of date, outside
  any formula. \<open>outs d\<close> are the values such a daemon pushes and \<open>regs d\<close> the
  daemons it registers. \<open>flushed ds s\<close> is the state after the daemons \<open>ds\<close> have
  run, each once, one after the other, in a flush started in \<open>s\<close>.
\<close>

fun simple :: "sys \<Rightarrow> expr \<Rightarrow> bool" where
  "simple s (Emit (Lit v)) = True"
| "simple s (AddDaemon d) = simple s d"
| "simple s (Get x) = (\<not> v_outOfDate (heap s x) \<and> demandingVariables s = [])"
| "simple s (Seq a b) = (simple s a \<and> simple s b)"
| "simple s _ = False"

fun outs :: "expr \<Rightarrow> val list" where
  "outs (Emit (Lit v)) = [v]"
| "outs (Seq a b) = outs a @ outs b"
| "outs _ = []"

fun regs :: "expr \<Rightarrow> expr list" where
  "regs (AddDaemon d) = [d]"
| "regs (Seq a b) = regs a @ regs b"
| "regs _ = []"

definition flushed :: "expr list \<Rightarrow> sys \<Rightarrow> sys" where
  "flushed ds s =
     s\<lparr>daemonQueue := concat (map regs ds), emitted := emitted s @ concat (map outs ds)\<rparr>"

text \<open>
  Three system daemons: \<open>addDaemon(() => out.push(1))\<close>,
  \<open>addDaemon(() => { addDaemon(() => out.push(3)); x.value })\<close> and
  \<open>addDaemon(() => out.push(2))\<close>, with \<open>x = new Variable({value: 0})\<close> at handle 0.
\<close>

definition three_daemons :: sys where
  "three_daemons =
     addDaemon (Emit (Lit (Num 2)))
       (addDaemon (Seq (AddDaemon (Emit (Lit (Num 3)))) (Get 0))
         (addDaemon (Emit (Lit (Num 1)))
           (new_Variable 0 (Num 0) None Null None new_ConstraintSystem)))"

subsection \<open>Two Variables whose formulas read each other\<close>






definition differ_at :: "vid set \<Rightarrow> sys \<Rightarrow> sys \<Rightarrow> bool" where
  "differ_at X s r \<longleftrightarrow>
     demandingVariables r = demandingVariables s \<and> daemonQueue r = daemonQueue s \<and>
     executingDaemons r = executingDaemons s \<and> globals r = globals s \<and> emitted r = emitted s \<and>
     (\<forall>x. v_formula (heap r x) = v_formula (heap s x) \<and>
          v_thisFormula (heap r x) = v_thisFormula (heap s x) \<and>
          v_outOfDateDaemon (heap r x) = v_outOfDateDaemon (heap s x)) \<and>
     (\<forall>x. x \<notin> X \<longrightarrow> v_value (heap r x) = v_value (heap s x) \<and> tick (heap r x) = tick (heap s x) \<and>
          v_outOfDate (heap r x) = v_outOfDate (heap s x))"




section \<open>Properties\<close>

subsection \<open>Evaluating a concrete program\<close>

lemmas eval_simps =
  new_Variable_def new_ConstraintSystem_def get_value_def executeDaemons_def sweep_def
  computeFormula_def set_value_def set_formula_def set_formulaValue_def addDaemon_def
  updateDependencies_def upd_def and_then_def Let_def executeOutOfDateDaemon_def
  new_Dependency_def dep_outOfDate_def remove_all_def peek_def splice1_def numeral_nat

subsection \<open>A rule for every run of a callable\<close>

lemma engine_ruleD:
  assumes "engine_rule Q E"
  shows "Q s s" and "E s s"
    and "Q s r \<Longrightarrow> Q r t \<Longrightarrow> Q s t"
    and "Q s r \<Longrightarrow> E r t \<Longrightarrow> E s t"
    and "Q s (upd x (\<lambda>v. v\<lparr>v_outOfDate := b\<rparr>) s)"
    and "Q s (upd x (\<lambda>v. v\<lparr>v_value := w\<rparr>) s)"
    and "Q s (upd x (\<lambda>v. v\<lparr>v_formula := Some f\<rparr>) s)"
    and "Q s (upd x (\<lambda>v. v\<lparr>v_value := w, v_formula := None, v_outOfDateDaemon := None\<rparr>) s)"
    and "Q s (upd x (\<lambda>v. v\<lparr>v_dependents := remove_all rem (v_dependents v)\<rparr>) s)"
    and "Q s (updateDependencies x s)"
    and "Q s (addDaemon d s)"
    and "Q s (s\<lparr>globals := g\<rparr>)"
    and "Q s (s\<lparr>emitted := l\<rparr>)"
    and "v_outOfDate (heap s x) \<Longrightarrow> Q (enter x s) r \<Longrightarrow> Q s (leave x w r)"
    and "v_outOfDate (heap s x) \<Longrightarrow> E (enter x s) r \<Longrightarrow> E s r"
    and "daemonQueue s \<noteq> [] \<Longrightarrow> executingDaemons s = None \<Longrightarrow> Q (take_queue s) r
            \<Longrightarrow> Q s (r\<lparr>executingDaemons := None\<rparr>)"
    and "daemonQueue s \<noteq> [] \<Longrightarrow> executingDaemons s = None \<Longrightarrow> E (take_queue s) r \<Longrightarrow> E s r"
    and "E s r \<Longrightarrow> Q r t \<Longrightarrow> Q s t"
    and "E s r \<Longrightarrow> E r t \<Longrightarrow> E s t"
  using assms unfolding engine_rule_def by meson+

lemma and_then_simps [simp]:
  "and_then Timeout f = Timeout"
  "and_then (Raise e s) f = Raise e s"
  "and_then (Return x s) f = f x s"
  by (simp_all add: and_then_def)

lemma upd_simps [simp]:
  "heap (upd x f s) = (heap s)(x := f (heap s x))"
  "demandingVariables (upd x f s) = demandingVariables s"
  "daemonQueue (upd x f s) = daemonQueue s"
  "executingDaemons (upd x f s) = executingDaemons s"
  "next_dep (upd x f s) = next_dep s"
  "globals (upd x f s) = globals s"
  "emitted (upd x f s) = emitted s"
  by (simp_all add: upd_def)

lemma keeps_simps [simp]:
  "keeps Q E s Timeout"
  "keeps Q E s (Raise e r) = E s r"
  "keeps Q E s (Return x r) = Q s r"
  by (simp_all add: keeps_def)

lemma keeps_and_then:
  assumes R: "engine_rule Q E"
    and m: "keeps Q E s m"
    and f: "\<And>x r. m = Return x r \<Longrightarrow> keeps Q E r (f x r)"
  shows "keeps Q E s (and_then m f)"
proof (cases m)
  case Timeout
  then show ?thesis by simp
next
  case (Raise e r)
  with m show ?thesis by simp
next
  case (Return x r)
  with m have q: "Q s r" by simp
  from f[OF Return] q show ?thesis
    unfolding Return
    by (cases "f x r") (auto intro: engine_ruleD(3)[OF R] engine_ruleD(4)[OF R])
qed

lemma keeps_after:
  assumes R: "engine_rule Q E" and q: "Q s r" and m: "keeps Q E r m"
  shows "keeps Q E s m"
  using q m by (cases m) (auto intro: engine_ruleD(3)[OF R] engine_ruleD(4)[OF R])

lemma keeps_executeOutOfDateDaemon:
  assumes R: "engine_rule Q E" and run: "run_keeps Q E run"
  shows "keeps Q E s (executeOutOfDateDaemon run this s)"
proof (cases "v_outOfDateDaemon (heap s this)")
  case None
  then show ?thesis by (simp add: executeOutOfDateDaemon_def engine_ruleD(1)[OF R])
next
  case (Some d)
  have "keeps Q E s (and_then (run d s) (\<lambda>_ s1. Return () s1))"
    using run by (intro keeps_and_then[OF R]) (auto simp: run_keeps_def engine_ruleD(1)[OF R])
  with Some show ?thesis by (simp add: executeOutOfDateDaemon_def)
qed

lemma keeps_mark_both:
  assumes R: "engine_rule Q E" and run: "run_keeps Q E run"
  shows "(\<forall>this marked s. keeps Q E s (mark n run this marked s)) \<and>
         (\<forall>this k len marked removals s. keeps Q E s (mark_forEach n run this k len marked removals s))"
proof (induction n)
  case 0
  show ?case by simp
next
  case (Suc n)
  note refl = engine_ruleD(1)[OF R] and stale = engine_ruleD(5)[OF R] and rem = engine_ruleD(9)[OF R]
  from Suc have IHm: "\<And>this marked s. keeps Q E s (mark n run this marked s)"
    and IHf: "\<And>this k len marked removals s. keeps Q E s (mark_forEach n run this k len marked removals s)"
    by blast+
  have m: "keeps Q E s (mark (Suc n) run this marked s)" for this marked s
  proof (cases "\<not> v_outOfDate (heap s this) \<and> this \<notin> set marked")
    case False
    then show ?thesis by (auto simp: refl)
  next
    case True
    let ?s' = "upd this (\<lambda>v. v\<lparr>v_outOfDate := True\<rparr>) s"
    have "keeps Q E ?s'
       (and_then (executeOutOfDateDaemon run this ?s')
          (\<lambda>_ s1.
        and_then (mark_forEach n run this 0 (length (v_dependents (heap s1 this)))
                    (marked @ [this]) [] s1)
          (\<lambda>(marked, removals) s2.
             Return (butlast marked)
               (upd this (\<lambda>v. v\<lparr>v_dependents := remove_all removals (v_dependents v)\<rparr>) s2))))"
      by (intro keeps_and_then[OF R] keeps_executeOutOfDateDaemon[OF R run] IHf)
         (auto simp: rem)
    from keeps_after[OF R stale this] True show ?thesis by simp
  qed
  have f: "keeps Q E s (mark_forEach (Suc n) run this k len marked removals s)"
    for this k len marked removals s
    by (auto simp: Let_def refl IHf intro!: keeps_and_then[OF R] IHm)
  from m f show ?case by blast
qed

lemma keeps_mark:
  "engine_rule Q E \<Longrightarrow> run_keeps Q E run \<Longrightarrow> keeps Q E s (mark n run this marked s)"
  using keeps_mark_both by blast

lemma keeps_set_value:
  assumes R: "engine_rule Q E" and run: "run_keeps Q E run"
  shows "keeps Q E s (set_value n run this w s)"
  unfolding set_value_def
  by (rule keeps_after[OF R engine_ruleD(8)[OF R]])
     (auto intro!: keeps_and_then[OF R] keeps_mark[OF R run] simp: engine_ruleD(5)[OF R])

lemma keeps_set_formulaValue:
  assumes R: "engine_rule Q E" and run: "run_keeps Q E run"
  shows "keeps Q E s (set_formulaValue n run this w s)"
  unfolding set_formulaValue_def
  by (rule keeps_after[OF R engine_ruleD(6)[OF R]])
     (auto intro!: keeps_and_then[OF R] keeps_mark[OF R run] simp: engine_ruleD(5)[OF R])

lemma keeps_set_formula:
  assumes R: "engine_rule Q E" and run: "run_keeps Q E run"
  shows "keeps Q E s (set_formula n run this f s)"
  unfolding set_formula_def
  by (rule keeps_after[OF R engine_ruleD(7)[OF R]])
     (auto intro!: keeps_and_then[OF R] keeps_mark[OF R run] simp: engine_ruleD(1)[OF R])

lemma computeFormula_enter_leave:
  "computeFormula run this s =
     (if v_outOfDate (heap s this) then
        (case v_formula (heap s this) of
           None \<Rightarrow> Raise TypeError (enter this s)
         | Some formula \<Rightarrow> and_then (run formula (enter this s)) (\<lambda>r s3. Return () (leave this r s3)))
      else Return () s)"
  by (simp add: computeFormula_def enter_def leave_def Let_def split: option.split)

lemma keeps_computeFormula:
  assumes R: "engine_rule Q E" and run: "run_keeps Q E run"
  shows "keeps Q E s (computeFormula run this s)"
proof (cases "v_outOfDate (heap s this)")
  case False
  then show ?thesis by (simp add: computeFormula_enter_leave engine_ruleD(1)[OF R])
next
  case True
  note ok = engine_ruleD(14)[OF R] and err = engine_ruleD(15)[OF R]
  show ?thesis
  proof (cases "v_formula (heap s this)")
    case None
    with True err[OF True engine_ruleD(2)[OF R]] show ?thesis
      by (simp add: computeFormula_enter_leave)
  next
    case (Some f)
    from run have "keeps Q E (enter this s) (run f (enter this s))"
      by (simp add: run_keeps_def)
    with True Some show ?thesis
      by (cases "run f (enter this s)") (auto simp: computeFormula_enter_leave intro: ok err)
  qed
qed

lemma keeps_sweep:
  assumes R: "engine_rule Q E" and run: "run_keeps Q E run"
  shows "keeps Q E s (sweep run this s)"
  unfolding sweep_def
  by (rule keeps_after[OF R engine_ruleD(10)[OF R] keeps_computeFormula[OF R run]])

lemma keeps_daemons_forEach:
  assumes R: "engine_rule Q E" and run: "run_keeps Q E run"
  shows "keeps Q E s (daemons_forEach run ds s)"
proof (induction ds arbitrary: s)
  case Nil
  show ?case by (simp add: engine_ruleD(1)[OF R])
next
  case (Cons d ds)
  from run have "keeps Q E s (run d s)" by (simp add: run_keeps_def)
  then show ?case by (auto intro!: keeps_and_then[OF R] Cons.IH)
qed

lemma keeps_executeDaemons:
  assumes R: "engine_rule Q E" and run: "run_keeps Q E run"
  shows "keeps Q E s (executeDaemons run s)"
proof (cases "daemonQueue s \<noteq> [] \<and> executingDaemons s = None")
  case False
  then show ?thesis by (auto simp: executeDaemons_def engine_ruleD(1)[OF R])
next
  case True
  note ok = engine_ruleD(16)[OF R] and err = engine_ruleD(17)[OF R]
  have "keeps Q E (take_queue s) (daemons_forEach run (daemonQueue s) (take_queue s))"
    by (rule keeps_daemons_forEach[OF R run])
  with True show ?thesis
    by (cases "daemons_forEach run (daemonQueue s) (take_queue s)")
       (auto simp: executeDaemons_def take_queue_def[symmetric] intro: ok err)
qed

lemma keeps_get_value:
  assumes R: "engine_rule Q E" and run: "run_keeps Q E run"
  shows "keeps Q E s (get_value run this s)"
  unfolding get_value_def
  by (intro keeps_and_then[OF R] keeps_executeDaemons[OF R run] keeps_sweep[OF R run])
     (simp add: engine_ruleD(1)[OF R])

lemma keeps_exec:
  assumes R: "engine_rule Q E"
  shows "keeps Q E s (exec n e s)"
proof (induction n arbitrary: e s)
  case 0
  show ?case by simp
next
  case (Suc n)
  from Suc have run: "run_keeps Q E (exec n)" by (simp add: run_keeps_def)
  note refl = engine_ruleD(1)[OF R] and erefl = engine_ruleD(2)[OF R]
    and g = engine_ruleD(12)[OF R] and l = engine_ruleD(13)[OF R] and d = engine_ruleD(11)[OF R]
  show ?case
  proof (cases e)
    case (Get x)
    then show ?thesis using keeps_get_value[OF R run] by simp
  next
    case (SetValue x a)
    then show ?thesis
      by (auto intro!: keeps_and_then[OF R] Suc keeps_set_value[OF R run] simp: refl)
  next
    case (SetFormulaValue x a)
    then show ?thesis
      by (auto intro!: keeps_and_then[OF R] Suc keeps_set_formulaValue[OF R run] simp: refl)
  next
    case (SetFormula x a)
    then show ?thesis
      by (auto intro!: keeps_and_then[OF R] Suc keeps_set_formula[OF R run] simp: refl)
  next
    case (TryCatch a b)
    have a: "keeps Q E s (exec n a s)" by (rule Suc)
    show ?thesis
    proof (cases "exec n a s")
      case Timeout
      with TryCatch show ?thesis by simp
    next
      case (Raise err s1)
      with a have e: "E s s1" by simp
      have "keeps Q E s1 (exec n b s1)" by (rule Suc)
      with e have "keeps Q E s (exec n b s1)"
        by (cases "exec n b s1") (auto intro: engine_ruleD(18)[OF R] engine_ruleD(19)[OF R])
      with TryCatch Raise show ?thesis by simp
    next
      case (Return v s1)
      with a TryCatch show ?thesis by simp
    qed
  qed (auto intro!: keeps_and_then[OF R] Suc simp: refl erefl g l d)
qed

subsection \<open>The relations every run keeps\<close>

lemma updateDependencies_fields [simp]:
  "demandingVariables (updateDependencies x s) = demandingVariables s"
  "daemonQueue (updateDependencies x s) = daemonQueue s"
  "executingDaemons (updateDependencies x s) = executingDaemons s"
  "globals (updateDependencies x s) = globals s"
  "emitted (updateDependencies x s) = emitted s"
  by (simp_all add: updateDependencies_def Let_def split: option.split)

lemma updateDependencies_cells [simp]:
  "v_value (heap (updateDependencies x s) y) = v_value (heap s y)"
  "v_formula (heap (updateDependencies x s) y) = v_formula (heap s y)"
  "v_thisFormula (heap (updateDependencies x s) y) = v_thisFormula (heap s y)"
  "v_outOfDateDaemon (heap (updateDependencies x s) y) = v_outOfDateDaemon (heap s y)"
  "tick (heap (updateDependencies x s) y) = tick (heap s y)"
  "v_outOfDate (heap (updateDependencies x s) y) = v_outOfDate (heap s y)"
  by (simp_all add: updateDependencies_def Let_def split: option.split)

lemma updateDependencies_others:
  "y \<noteq> x \<Longrightarrow> v_dependents (heap (updateDependencies x s) y) = v_dependents (heap s y)"
  by (simp add: updateDependencies_def Let_def split: option.split)

lemma engine_rule_ticks: "engine_rule ticks_le ticks_le"
  unfolding engine_rule_def ticks_le_def
  by (auto simp: enter_def leave_def take_queue_def addDaemon_def Let_def
           intro: order_trans le_SucI)


lemma distinct_take_drop_Suc:
  assumes "distinct xs"
  shows "distinct (take i xs @ drop (Suc i) xs)"
proof -
  from assms have "set (take i xs) \<inter> set (drop i xs) = {}"
    by (metis append_take_drop_id distinct_append)
  moreover have "set (drop (Suc i) xs) \<subseteq> set (drop i xs)"
    by (metis drop_Suc set_drop_subset tl_drop drop_drop plus_1_eq_Suc)
  ultimately have "set (take i xs) \<inter> set (drop (Suc i) xs) = {}" by blast
  with assms show ?thesis by (simp add: distinct_take distinct_drop)
qed

lemma distinct_splice1:
  assumes "distinct (map f ds)"
  shows "distinct (map f (splice1 ds pos))"
proof (cases pos)
  case None
  with assms show ?thesis by (simp add: splice1_def map_butlast distinct_butlast)
next
  case (Some i)
  have "map f (take i ds @ drop (Suc i) ds) = take i (map f ds) @ drop (Suc i) (map f ds)"
    by (simp add: take_map drop_map)
  with assms Some show ?thesis
    by (simp only: splice1_def option.case distinct_take_drop_Suc)
qed

lemma distinct_remove_all:
  "distinct (map f ds) \<Longrightarrow> distinct (map f (remove_all removals ds))"
  unfolding remove_all_def
  by (induction removals arbitrary: ds) (simp_all add: distinct_splice1)

lemma find_first_index:
  "find P xs = Some d \<Longrightarrow>
     length (takeWhile (\<lambda>x. \<not> P x) xs) < length xs \<and> xs ! length (takeWhile (\<lambda>x. \<not> P x) xs) = d \<and> P d"
  by (induction xs) (auto split: if_splits)

lemma map_list_update_same:
  "i < length xs \<Longrightarrow> f y = f (xs ! i) \<Longrightarrow> map f (xs[i := y]) = map f xs"
  by (simp add: map_update list_update_same_conv)

lemma updateDependencies_variables:
  "map d_variable (v_dependents (heap (updateDependencies x s) x)) =
     (if demandingVariables s = [] \<or> last (demandingVariables s) \<in> d_variable ` set (v_dependents (heap s x))
      then map d_variable (v_dependents (heap s x))
      else map d_variable (v_dependents (heap s x)) @ [last (demandingVariables s)])"
proof (cases "demandingVariables s = []")
  case True
  then show ?thesis by (simp add: updateDependencies_def)
next
  case False
  let ?d = "last (demandingVariables s)"
  let ?deps = "v_dependents (heap s x)"
  show ?thesis
  proof (cases "find (\<lambda>dependent. d_variable dependent = ?d) ?deps")
    case None
    then have "?d \<notin> d_variable ` set ?deps" by (auto simp: find_None_iff)
    with None False show ?thesis
      by (simp add: updateDependencies_def Let_def new_Dependency_def)
  next
    case (Some dep)
    from find_first_index[OF Some]
    have i: "length (takeWhile (\<lambda>dependent. d_variable dependent \<noteq> ?d) ?deps) < length ?deps"
      and at: "?deps ! length (takeWhile (\<lambda>dependent. d_variable dependent \<noteq> ?d) ?deps) = dep"
      and d: "d_variable dep = ?d" by auto
    from i at d have "?d \<in> d_variable ` set ?deps" by (metis imageI nth_mem)
    with Some False i at show ?thesis
      by (simp add: updateDependencies_def Let_def map_list_update_same)
  qed
qed

lemma deduplicated_updateDependencies:
  assumes "deduplicated s"
  shows "deduplicated (updateDependencies x s)"
  unfolding deduplicated_def
proof
  fix y
  show "distinct (map d_variable (v_dependents (heap (updateDependencies x s) y)))"
  proof (cases "y = x")
    case True
    from assms have "distinct (map d_variable (v_dependents (heap s x)))"
      by (simp add: deduplicated_def)
    then show ?thesis unfolding True updateDependencies_variables by auto
  next
    case False
    with assms show ?thesis by (simp add: updateDependencies_others deduplicated_def)
  qed
qed

lemma deduplicated_upd:
  "deduplicated s \<Longrightarrow> distinct (map d_variable (v_dependents (f (heap s x)))) \<Longrightarrow> deduplicated (upd x f s)"
  by (simp add: deduplicated_def)

lemma deduplicated_fields [simp]:
  "deduplicated (s\<lparr>demandingVariables := st\<rparr>) = deduplicated s"
  "deduplicated (s\<lparr>daemonQueue := q\<rparr>) = deduplicated s"
  "deduplicated (s\<lparr>executingDaemons := ex\<rparr>) = deduplicated s"
  "deduplicated (s\<lparr>globals := g\<rparr>) = deduplicated s"
  "deduplicated (s\<lparr>emitted := l\<rparr>) = deduplicated s"
  by (simp_all add: deduplicated_def)

lemma deduplicated_enter [simp]: "deduplicated (enter x s) = deduplicated s"
  by (auto simp: deduplicated_def enter_def)

lemma deduplicated_leave [simp]: "deduplicated (leave x w s) = deduplicated s"
  by (auto simp: deduplicated_def leave_def Let_def)

lemma engine_rule_deduplicated: "engine_rule keeps_deduplicated keeps_deduplicated"
  unfolding engine_rule_def keeps_deduplicated_def
  by (simp add: deduplicated_updateDependencies deduplicated_upd distinct_remove_all
        take_queue_def addDaemon_def) (simp add: deduplicated_def distinct_remove_all)

lemma engine_rule_flush_stuck: "engine_rule flush_stuck flush_stuck"
  unfolding engine_rule_def flush_stuck_def
  by (auto simp: enter_def leave_def take_queue_def addDaemon_def Let_def)



subsection \<open>Consequences for every run of a callable\<close>

lemma keeps_execD:
  assumes "engine_rule Q E"
  shows "exec n e s = Return v r \<Longrightarrow> Q s r" and "exec n e s = Raise err r \<Longrightarrow> E s r"
  using keeps_exec[OF assms, of s n e] by simp_all

lemma run_keeps_exec: "engine_rule Q E \<Longrightarrow> run_keeps Q E (exec n)"
  by (simp add: run_keeps_def keeps_exec)

lemma deduplicated_new_Variable:
  "deduplicated s \<Longrightarrow> deduplicated (new_Variable x w f c d s)"
  by (simp add: deduplicated_def new_Variable_def)

lemma deduplicated_new_ConstraintSystem: "deduplicated new_ConstraintSystem"
  by (simp add: deduplicated_def new_ConstraintSystem_def)

lemma updateDependencies_refreshed:
  assumes ded: "deduplicated s" and st: "demandingVariables s \<noteq> []"
    and mem: "dep \<in> set (v_dependents (heap (updateDependencies x s) x))"
    and var: "d_variable dep = last (demandingVariables s)"
  shows "d_tick dep = tick (heap s (last (demandingVariables s))) + 1"
proof -
  let ?d = "last (demandingVariables s)"
  let ?deps = "v_dependents (heap s x)"
  from ded have dist: "distinct (map d_variable ?deps)" by (simp add: deduplicated_def)
  show ?thesis
  proof (cases "find (\<lambda>dependent. d_variable dependent = ?d) ?deps")
    case None
    then have "\<forall>e\<in>set ?deps. d_variable e \<noteq> ?d" by (auto simp: find_None_iff)
    with None st mem var show ?thesis
      by (auto simp: updateDependencies_def Let_def new_Dependency_def)
  next
    case (Some found)
    let ?i = "length (takeWhile (\<lambda>dependent. d_variable dependent \<noteq> ?d) ?deps)"
    from find_first_index[OF Some]
    have i: "?i < length ?deps" and at: "?deps ! ?i = found" and d: "d_variable found = ?d" by auto
    from Some st mem have "dep \<in> set (?deps[?i := found\<lparr>d_tick := tick (heap s ?d) + 1\<rparr>])"
      by (simp add: updateDependencies_def Let_def)
    then obtain j where j: "j < length ?deps"
      and dep: "dep = ?deps[?i := found\<lparr>d_tick := tick (heap s ?d) + 1\<rparr>] ! j"
      by (auto simp: in_set_conv_nth)
    show ?thesis
    proof (cases "j = ?i")
      case True
      with dep i show ?thesis by simp
    next
      case False
      with dep have "dep = ?deps ! j" by simp
      with var at d have "map d_variable ?deps ! j = map d_variable ?deps ! ?i"
        using i j by simp
      moreover have "j < length (map d_variable ?deps)" "?i < length (map d_variable ?deps)"
        using i j by simp_all
      ultimately have "j = ?i" using dist nth_eq_iff_index_eq by blast
      with False show ?thesis by simp
    qed
  qed
qed

lemma executeDaemons_busy:
  "executingDaemons s \<noteq> None \<Longrightarrow> executeDaemons run s = Return () s"
  by (auto simp: executeDaemons_def)

lemma daemons_forEach_raise:
  "daemons_forEach run before s = Return () s1 \<Longrightarrow> run d s1 = Raise e s2 \<Longrightarrow>
     daemons_forEach run (before @ d # rest) s = Raise e s2"
proof (induction before arbitrary: s)
  case Nil
  then show ?case by simp
next
  case (Cons b bs)
  then show ?case by (cases "run b s") simp_all
qed

lemma get_value_fresh:
  assumes "daemonQueue s = [] \<or> executingDaemons s \<noteq> None" and "\<not> v_outOfDate (heap s x)"
  shows "get_value run x s = Return (v_value (heap s x)) (updateDependencies x s)"
  using assms by (auto simp: get_value_def executeDaemons_def sweep_def computeFormula_enter_leave)


lemma updateDependencies_top: "demandingVariables s = [] \<Longrightarrow> updateDependencies x s = s"
  by (simp add: updateDependencies_def)

lemma updateDependencies_kept:
  assumes mem: "dep \<in> set (v_dependents (heap (updateDependencies x s) x))"
    and var: "d_variable dep \<noteq> last (demandingVariables s)"
  shows "dep \<in> set (v_dependents (heap s x))"
proof (cases "demandingVariables s = []")
  case True
  with mem show ?thesis by (simp add: updateDependencies_top)
next
  case False
  let ?d = "last (demandingVariables s)"
  let ?deps = "v_dependents (heap s x)"
  show ?thesis
  proof (cases "find (\<lambda>dependent. d_variable dependent = ?d) ?deps")
    case None
    with False mem var show ?thesis
      by (auto simp: updateDependencies_def Let_def new_Dependency_def)
  next
    case (Some found)
    let ?i = "length (takeWhile (\<lambda>dependent. d_variable dependent \<noteq> ?d) ?deps)"
    from find_first_index[OF Some] have d: "d_variable found = ?d" by auto
    from Some False mem have "dep \<in> set (?deps[?i := found\<lparr>d_tick := tick (heap s ?d) + 1\<rparr>])"
      by (simp add: updateDependencies_def Let_def)
    then have "dep = found\<lparr>d_tick := tick (heap s ?d) + 1\<rparr> \<or> dep \<in> set ?deps"
      using set_update_subset_insert by fastforce
    with var d show ?thesis by auto
  qed
qed

subsection \<open>What one mark pass does\<close>

lemma caller_simps [simp]:
  "caller (upd x f s) = caller s"
  "caller (set_caller c s) = c"
  "heap (set_caller c s) = heap s"
  "demandingVariables (set_caller c s) = demandingVariables s"
  "daemonQueue (set_caller c s) = daemonQueue s"
  "executingDaemons (set_caller c s) = executingDaemons s"
  "next_dep (set_caller c s) = next_dep s"
  "globals (set_caller c s) = fst c"
  "emitted (set_caller c s) = snd c"
  "set_caller (caller s) s = s"
  "set_caller (caller s) (upd x f s) = upd x f s"
  by (simp_all add: caller_def set_caller_def upd_def)

lemma caller_live [simp]: "dep_outOfDate (set_caller c s) dep = dep_outOfDate s dep"
  by (simp add: dep_outOfDate_def)

lemma mark_pass_refl: "mark_pass s s"
  by (simp add: mark_pass_def)

lemma mark_pass_trans:
  assumes "mark_pass s r" and "mark_pass r t"
  shows "mark_pass s t"
  unfolding mark_pass_def
proof (intro conjI allI)
  fix x
  from assms have a: "v_outOfDate (heap s x) \<longrightarrow> v_outOfDate (heap r x)"
    and b: "v_outOfDate (heap r x) \<longrightarrow> v_outOfDate (heap t x)"
    and d1: "v_outOfDate (heap s x) \<or> \<not> v_outOfDate (heap r x) \<longrightarrow>
             v_dependents (heap r x) = v_dependents (heap s x)"
    and d2: "v_outOfDate (heap r x) \<or> \<not> v_outOfDate (heap t x) \<longrightarrow>
             v_dependents (heap t x) = v_dependents (heap r x)"
    unfolding mark_pass_def by blast+
  from a b show "v_outOfDate (heap s x) \<longrightarrow> v_outOfDate (heap t x)" by blast
  from a b d1 d2 show "v_outOfDate (heap s x) \<or> \<not> v_outOfDate (heap t x) \<longrightarrow>
             v_dependents (heap t x) = v_dependents (heap s x)" by auto
qed (use assms in \<open>simp_all add: mark_pass_def\<close>)

lemma mark_pass_live:
  "mark_pass s r \<Longrightarrow> dep_outOfDate r dep = dep_outOfDate s dep"
  by (simp add: mark_pass_def dep_outOfDate_def)

lemma mark_passD:
  assumes "mark_pass s r"
  shows "v_value (heap r x) = v_value (heap s x)"
    and "v_formula (heap r x) = v_formula (heap s x)"
    and "v_thisFormula (heap r x) = v_thisFormula (heap s x)"
    and "v_outOfDateDaemon (heap r x) = v_outOfDateDaemon (heap s x)"
    and "tick (heap r x) = tick (heap s x)"
    and "v_outOfDate (heap s x) \<Longrightarrow> v_outOfDate (heap r x)"
    and "v_outOfDate (heap s x) \<or> \<not> v_outOfDate (heap r x) \<Longrightarrow>
           v_dependents (heap r x) = v_dependents (heap s x)"
  using assms unfolding mark_pass_def by blast+

lemma side_effect_only_same:
  "\<forall>x. v_outOfDateDaemon (heap r x) = v_outOfDateDaemon (heap s x) \<Longrightarrow>
     side_effect_only run eff s \<Longrightarrow> side_effect_only run eff r"
  by (simp add: side_effect_only_def)

lemma fire_same:
  "\<forall>x. v_outOfDateDaemon (heap r x) = v_outOfDateDaemon (heap s x) \<Longrightarrow>
     (\<lambda>c x. fire eff r x c) = (\<lambda>c x. fire eff s x c)"
  by (simp add: fire_def fun_eq_iff)

lemma mark_pass_side_effect_only:
  "mark_pass s r \<Longrightarrow> side_effect_only run eff s \<Longrightarrow> side_effect_only run eff r"
  by (rule side_effect_only_same) (simp_all add: mark_pass_def)

lemma fired_refl: "fired eff [] s s"
  by (simp add: fired_def)

lemma fired_trans:
  assumes sr: "mark_pass s r" and rt: "mark_pass r t"
    and f1: "fired eff o1 s r" and f2: "fired eff o2 r t"
  shows "fired eff (o1 @ o2) s t"
proof -
  from f1 have d1: "distinct o1"
    and m1: "\<And>x. x \<in> set o1 \<longleftrightarrow> \<not> v_outOfDate (heap s x) \<and> v_outOfDate (heap r x)"
    and c1: "caller r = foldl (\<lambda>c x. fire eff s x c) (caller s) o1"
    by (simp_all add: fired_def)
  from f2 have d2: "distinct o2"
    and m2: "\<And>x. x \<in> set o2 \<longleftrightarrow> \<not> v_outOfDate (heap r x) \<and> v_outOfDate (heap t x)"
    and c2: "caller t = foldl (\<lambda>c x. fire eff r x c) (caller r) o2"
    by (simp_all add: fired_def)
  have mono: "\<And>x. v_outOfDate (heap s x) \<Longrightarrow> v_outOfDate (heap r x)"
    "\<And>x. v_outOfDate (heap r x) \<Longrightarrow> v_outOfDate (heap t x)"
    using mark_passD(6)[OF sr] mark_passD(6)[OF rt] by blast+
  from d1 d2 m1 m2 have "distinct (o1 @ o2)" by auto
  moreover have "x \<in> set (o1 @ o2) \<longleftrightarrow> \<not> v_outOfDate (heap s x) \<and> v_outOfDate (heap t x)" for x
    using m1[of x] m2[of x] mono[of x] by auto
  moreover have "(\<lambda>c x. fire eff r x c) = (\<lambda>c x. fire eff s x c)"
    by (rule fire_same) (simp add: mark_passD(4)[OF sr])
  with c1 c2 have "caller t = foldl (\<lambda>c x. fire eff s x c) (caller s) (o1 @ o2)" by simp
  ultimately show ?thesis by (simp add: fired_def)
qed

lemma followed_refl: "followed s s"
  by (auto simp: followed_def)

lemma followed_trans:
  assumes sr: "mark_pass s r" and rt: "mark_pass r t"
    and f1: "followed s r" and f2: "followed r t"
  shows "followed s t"
  unfolding followed_def
proof (intro allI impI)
  fix x dep
  assume h: "\<not> v_outOfDate (heap s x) \<and> v_outOfDate (heap t x) \<and>
              dep \<in> set (v_dependents (heap s x)) \<and> \<not> dep_outOfDate s dep"
  show "v_outOfDate (heap t (d_variable dep))"
  proof (cases "v_outOfDate (heap r x)")
    case True
    with h f1 have "v_outOfDate (heap r (d_variable dep))" unfolding followed_def by blast
    with rt show ?thesis by (simp add: mark_pass_def)
  next
    case False
    with sr have "v_dependents (heap r x) = v_dependents (heap s x)" by (simp add: mark_pass_def)
    with h False f2 mark_pass_live[OF sr] show ?thesis unfolding followed_def by metis
  qed
qed

lemma daemon_fires:
  assumes "side_effect_only run eff s"
  shows "executeOutOfDateDaemon run x (upd x (\<lambda>v. v\<lparr>v_outOfDate := True\<rparr>) s)
           = Return () (marked_now eff x s)"
proof (cases "v_outOfDateDaemon (heap s x)")
  case None
  then show ?thesis by (simp add: executeOutOfDateDaemon_def marked_now_def fire_def)
next
  case (Some d)
  let ?t = "upd x (\<lambda>v. v\<lparr>v_outOfDate := True\<rparr>) s"
  from assms Some obtain v where "run d ?t = Return v (set_caller (eff x (caller ?t)) ?t)"
    unfolding side_effect_only_def by blast
  with Some show ?thesis by (simp add: executeOutOfDateDaemon_def marked_now_def fire_def)
qed

lemma marked_now_cells [simp]:
  "v_value (heap (marked_now eff this s) x) = v_value (heap s x)"
  "v_formula (heap (marked_now eff this s) x) = v_formula (heap s x)"
  "v_thisFormula (heap (marked_now eff this s) x) = v_thisFormula (heap s x)"
  "v_outOfDateDaemon (heap (marked_now eff this s) x) = v_outOfDateDaemon (heap s x)"
  "tick (heap (marked_now eff this s) x) = tick (heap s x)"
  "v_dependents (heap (marked_now eff this s) x) = v_dependents (heap s x)"
  "v_outOfDate (heap (marked_now eff this s) x) = (x = this \<or> v_outOfDate (heap s x))"
  "caller (marked_now eff this s) = fire eff s this (caller s)"
  "demandingVariables (marked_now eff this s) = demandingVariables s"
  "daemonQueue (marked_now eff this s) = daemonQueue s"
  "executingDaemons (marked_now eff this s) = executingDaemons s"
  "next_dep (marked_now eff this s) = next_dep s"
  by (simp_all add: marked_now_def)

lemma marked_now_live [simp]: "dep_outOfDate (marked_now eff this s) dep = dep_outOfDate s dep"
  by (simp add: dep_outOfDate_def)

lemma marked_now_side_effect_only:
  "side_effect_only run eff s \<Longrightarrow> side_effect_only run eff (marked_now eff this s)"
  by (rule side_effect_only_same) simp_all

lemma mark_step:
  assumes fr: "\<not> v_outOfDate (heap s this)"
    and mp: "mark_pass (marked_now eff this s) r"
    and fo: "followed (marked_now eff this s) r"
    and fi: "fired eff order (marked_now eff this s) r"
    and ed: "\<forall>dep\<in>set (v_dependents (heap s this)). \<not> dep_outOfDate s dep \<longrightarrow>
               v_outOfDate (heap r (d_variable dep))"
  shows "mark_pass s (upd this (\<lambda>v. v\<lparr>v_dependents := D v\<rparr>) r)"
    and "followed s (upd this (\<lambda>v. v\<lparr>v_dependents := D v\<rparr>) r)"
    and "v_outOfDate (heap (upd this (\<lambda>v. v\<lparr>v_dependents := D v\<rparr>) r) this)"
    and "fired eff (this # order) s (upd this (\<lambda>v. v\<lparr>v_dependents := D v\<rparr>) r)"
proof -
  let ?r = "upd this (\<lambda>v. v\<lparr>v_dependents := D v\<rparr>) r"
  let ?m = "marked_now eff this s"
  from mp have st: "v_outOfDate (heap r this)"
    by (simp add: mark_pass_def)
  then show "v_outOfDate (heap ?r this)" by simp
  show "mark_pass s ?r"
    unfolding mark_pass_def
  proof (intro conjI allI)
    fix x
    note x = mark_passD[OF mp, of x]
    from x(1) show "v_value (heap ?r x) = v_value (heap s x)" by auto
    from x(2) show "v_formula (heap ?r x) = v_formula (heap s x)" by auto
    from x(3) show "v_thisFormula (heap ?r x) = v_thisFormula (heap s x)" by auto
    from x(4) show "v_outOfDateDaemon (heap ?r x) = v_outOfDateDaemon (heap s x)"
      by auto
    from x(5) show "tick (heap ?r x) = tick (heap s x)" by auto
    from x(6) st show "v_outOfDate (heap s x) \<longrightarrow> v_outOfDate (heap ?r x)"
      by auto
    from x(7) fr st show "v_outOfDate (heap s x) \<or> \<not> v_outOfDate (heap ?r x) \<longrightarrow>
             v_dependents (heap ?r x) = v_dependents (heap s x)"
      by auto
  qed (use mp in \<open>simp_all add: mark_pass_def\<close>)
  show "followed s ?r"
    unfolding followed_def
  proof (intro allI impI)
    fix x dep
    assume h: "\<not> v_outOfDate (heap s x) \<and> v_outOfDate (heap ?r x) \<and>
              dep \<in> set (v_dependents (heap s x)) \<and> \<not> dep_outOfDate s dep"
    show "v_outOfDate (heap ?r (d_variable dep))"
    proof (cases "x = this")
      case True
      with h ed have "v_outOfDate (heap r (d_variable dep))" by blast
      then show ?thesis by auto
    next
      case False
      with h have "\<not> v_outOfDate (heap ?m x)" "v_outOfDate (heap r x)"
        "dep \<in> set (v_dependents (heap ?m x))"
        "\<not> dep_outOfDate ?m dep"
        by simp_all
      with fo have "v_outOfDate (heap r (d_variable dep))" unfolding followed_def by blast
      then show ?thesis by auto
    qed
  qed
  show "fired eff (this # order) s ?r"
  proof -
    from fi have d: "distinct order"
      and m: "\<And>x. x \<in> set order \<longleftrightarrow> \<not> v_outOfDate (heap ?m x) \<and> v_outOfDate (heap r x)"
      and c: "caller r = foldl (\<lambda>c x. fire eff ?m x c) (caller ?m) order"
      by (simp_all add: fired_def)
    from m[of this] have "this \<notin> set order" by simp
    with d have "distinct (this # order)" by simp
    moreover have "x \<in> set (this # order) \<longleftrightarrow> \<not> v_outOfDate (heap s x) \<and> v_outOfDate (heap ?r x)"
      for x using m[of x] fr st by (cases "x = this") auto
    moreover have "(\<lambda>c x. fire eff ?m x c) = (\<lambda>c x. fire eff s x c)"
      by (rule fire_same) simp
    with c have "caller ?r = foldl (\<lambda>c x. fire eff s x c) (caller s) (this # order)" by simp
    ultimately show ?thesis by (simp add: fired_def)
  qed
qed

lemma reach_fresh: "reach s a b \<Longrightarrow> \<not> v_outOfDate (heap s a) \<and> \<not> v_outOfDate (heap s b)"
  by (induction rule: reach.induct) simp_all

lemma reach_trans: "reach s b c \<Longrightarrow> reach s a b \<Longrightarrow> reach s a c"
proof (induction rule: reach.induct)
  case start
  then show ?case by simp
next
  case (edge u dep)
  from edge.IH[OF edge.prems] edge.hyps(2,3,4) show ?case by (rule reach.edge)
qed

lemma reach_mono:
  assumes "\<forall>y. \<not> v_outOfDate (heap r y) \<longrightarrow>
               \<not> v_outOfDate (heap s y) \<and> v_dependents (heap r y) = v_dependents (heap s y)"
    and "\<forall>y. tick (heap r y) = tick (heap s y)"
  shows "reach r a b \<Longrightarrow> reach s a b"
proof (induction rule: reach.induct)
  case start
  with assms show ?case by (simp add: reach.start)
next
  case (edge u dep)
  from reach_fresh[OF edge.hyps(1)] have "\<not> v_outOfDate (heap r u)" by simp
  with assms edge.hyps have "dep \<in> set (v_dependents (heap s u))" "\<not> dep_outOfDate s dep"
    "\<not> v_outOfDate (heap s (d_variable dep))"
    by (simp_all add: dep_outOfDate_def)
  with edge.IH show ?case by (rule reach.edge)
qed

lemma reach_mark_pass: "mark_pass s r \<Longrightarrow> reach r a b \<Longrightarrow> reach s a b"
  by (rule reach_mono) (auto simp: mark_pass_def)

lemma reach_marked_now: "reach (marked_now eff this s) a b \<Longrightarrow> reach s a b"
  by (rule reach_mono) auto

lemma mark_okD:
  assumes "mark_ok run eff n" and "side_effect_only run eff s"
    and "\<forall>m\<in>set marked. v_outOfDate (heap s m)"
  shows "mark n run this marked s = Timeout \<or>
        (\<exists>r order. mark n run this marked s = Return marked r \<and> mark_pass s r \<and> followed s r \<and>
             v_outOfDate (heap r this) \<and> fired eff order s r \<and>
             (\<forall>y\<in>set order. reach s this y))"
  using assms unfolding mark_ok_def by blast

lemma loop_okD:
  assumes "loop_ok run eff n" and "side_effect_only run eff s" and "v_outOfDate (heap s this)"
    and "\<forall>m\<in>set marked. v_outOfDate (heap s m)"
  shows "mark_forEach n run this k (length (v_dependents (heap s this))) marked removals s = Timeout \<or>
        (\<exists>removals' r order.
           mark_forEach n run this k (length (v_dependents (heap s this))) marked removals s
             = Return (marked, removals') r \<and>
           mark_pass s r \<and> followed s r \<and>
           (\<forall>i. k \<le> i \<and> i < length (v_dependents (heap s this)) \<and>
                \<not> dep_outOfDate s (v_dependents (heap s this) ! i) \<longrightarrow>
                v_outOfDate (heap r (d_variable (v_dependents (heap s this) ! i)))) \<and>
           fired eff order s r \<and>
           (\<forall>y\<in>set order. \<exists>i. k \<le> i \<and> i < length (v_dependents (heap s this)) \<and>
                \<not> dep_outOfDate s (v_dependents (heap s this) ! i) \<and>
                reach s (d_variable (v_dependents (heap s this) ! i)) y))"
  using assms unfolding loop_ok_def by blast

lemma mark_ok_Suc:
  assumes IH: "loop_ok run eff n"
  shows "mark_ok run eff (Suc n)"
  unfolding mark_ok_def
proof (intro allI impI)
  fix this marked s
  assume se: "side_effect_only run eff s" and ms: "\<forall>m\<in>set marked. v_outOfDate (heap s m)"
  show "mark (Suc n) run this marked s = Timeout \<or>
        (\<exists>r order. mark (Suc n) run this marked s = Return marked r \<and> mark_pass s r \<and> followed s r \<and>
             v_outOfDate (heap r this) \<and> fired eff order s r \<and>
             (\<forall>y\<in>set order. reach s this y))"
  proof (cases "v_outOfDate (heap s this)")
    case True
    have "\<forall>y\<in>set []. reach s this y" by simp
    with True mark_pass_refl[of s] followed_refl[of s] fired_refl[of eff s]
    show ?thesis by (intro disjI2 exI[of _ s] exI[of _ "[]"]) simp
  next
    case False
    with ms have nm: "this \<notin> set marked" by blast
    let ?s0 = "upd this (\<lambda>v. v\<lparr>v_outOfDate := True\<rparr>) s"
    let ?s1 = "marked_now eff this s"
    let ?deps = "v_dependents (heap s this)"
    note d = daemon_fires[OF se, of this]
    have len: "length (v_dependents (heap ?s1 this)) = length ?deps" by simp
    have h1: "side_effect_only run eff ?s1" by (rule marked_now_side_effect_only[OF se])
    have h2: "v_outOfDate (heap ?s1 this)" by simp
    have h3: "\<forall>m\<in>set (marked @ [this]). v_outOfDate (heap ?s1 m)" using ms by simp
    from loop_okD[OF IH h1 h2 h3, of 0 "[]"]
    consider (timeout) "mark_forEach n run this 0 (length ?deps) (marked @ [this]) [] ?s1 = Timeout"
      | (ret) removals' r order where
          "mark_forEach n run this 0 (length ?deps) (marked @ [this]) [] ?s1
             = Return (marked @ [this], removals') r"
          "mark_pass ?s1 r" "followed ?s1 r"
          "\<forall>i. 0 \<le> i \<and> i < length ?deps \<and> \<not> dep_outOfDate s (?deps ! i) \<longrightarrow>
                v_outOfDate (heap r (d_variable (?deps ! i)))"
          "fired eff order ?s1 r"
          "\<forall>y\<in>set order. \<exists>i. 0 \<le> i \<and> i < length ?deps \<and> \<not> dep_outOfDate s (?deps ! i) \<and>
                reach ?s1 (d_variable (?deps ! i)) y"
      by auto
    then show ?thesis
    proof cases
      case timeout
      with False nm d show ?thesis by simp
    next
      case ret
      let ?r = "upd this (\<lambda>v. v\<lparr>v_dependents := remove_all removals' (v_dependents v)\<rparr>) r"
      from ret(4) have ed: "\<forall>dep\<in>set ?deps. \<not> dep_outOfDate s dep \<longrightarrow>
               v_outOfDate (heap r (d_variable dep))"
        by (auto simp: in_set_conv_nth)
      from False nm d ret(1) have m: "mark (Suc n) run this marked s = Return marked ?r" by simp
      note step = mark_step[OF False ret(2) ret(3) ret(5) ed, of "\<lambda>v. remove_all removals' (v_dependents v)"]
      have here: "reach s this this" by (rule reach.start[OF False])
      have "\<forall>y\<in>set (this # order). reach s this y"
      proof
        fix y assume "y \<in> set (this # order)"
        then consider "y = this" | "y \<in> set order" by auto
        then show "reach s this y"
        proof cases
          case 1
          with here show ?thesis by simp
        next
          case 2
          with ret(6) obtain i where i: "i < length ?deps" "\<not> dep_outOfDate s (?deps ! i)"
            "reach ?s1 (d_variable (?deps ! i)) y" by blast
          from reach_marked_now[OF i(3)] have ty: "reach s (d_variable (?deps ! i)) y" .
          from reach_fresh[OF ty] have "\<not> v_outOfDate (heap s (d_variable (?deps ! i)))" by simp
          with here i(1,2) have "reach s this (d_variable (?deps ! i))"
            by (intro reach.edge[of s this this]) simp_all
          from reach_trans[OF ty this] show ?thesis .
        qed
      qed
      with m step show ?thesis by blast
    qed
  qed
qed

lemma loop_ok_Suc:
  assumes IHm: "mark_ok run eff n" and IHl: "loop_ok run eff n"
  shows "loop_ok run eff (Suc n)"
  unfolding loop_ok_def
proof (intro allI impI)
  fix this k marked removals s
  assume se: "side_effect_only run eff s" and st: "v_outOfDate (heap s this)"
    and ms: "\<forall>m\<in>set marked. v_outOfDate (heap s m)"
  let ?deps = "v_dependents (heap s this)"
  let ?goal = "\<lambda>removals s0. mark_forEach (Suc n) run this k (length ?deps) marked removals s0 = Timeout \<or>
        (\<exists>removals' r order.
           mark_forEach (Suc n) run this k (length ?deps) marked removals s0
             = Return (marked, removals') r \<and>
           mark_pass s r \<and> followed s r \<and>
           (\<forall>i. k \<le> i \<and> i < length ?deps \<and> \<not> dep_outOfDate s (?deps ! i) \<longrightarrow>
                v_outOfDate (heap r (d_variable (?deps ! i)))) \<and>
           fired eff order s r \<and>
           (\<forall>y\<in>set order. \<exists>i. k \<le> i \<and> i < length ?deps \<and> \<not> dep_outOfDate s (?deps ! i) \<and>
                reach s (d_variable (?deps ! i)) y))"
  show "?goal removals s"
  proof (cases "k < length ?deps")
    case False
    have "\<forall>y\<in>set []. \<exists>i. k \<le> i \<and> i < length ?deps \<and> \<not> dep_outOfDate s (?deps ! i) \<and>
                reach s (d_variable (?deps ! i)) y" by simp
    with False mark_pass_refl[of s] followed_refl[of s] fired_refl[of eff s]
    show ?thesis
      by (intro disjI2 exI[of _ removals] exI[of _ s] exI[of _ "[]"]) auto
  next
    case True
    let ?dep = "?deps ! k"
    show ?thesis
    proof (cases "dep_outOfDate s ?dep")
      case dead: True
      from loop_okD[OF IHl se st ms, of "Suc k" "removals @ [?dep]"]
      consider (timeout) "mark_forEach n run this (Suc k) (length ?deps) marked (removals @ [?dep]) s = Timeout"
        | (ret) removals' r order where
          "mark_forEach n run this (Suc k) (length ?deps) marked (removals @ [?dep]) s
             = Return (marked, removals') r"
          "mark_pass s r" "followed s r"
          "\<forall>i. Suc k \<le> i \<and> i < length ?deps \<and> \<not> dep_outOfDate s (?deps ! i) \<longrightarrow>
                v_outOfDate (heap r (d_variable (?deps ! i)))"
          "fired eff order s r"
          "\<forall>y\<in>set order. \<exists>i. Suc k \<le> i \<and> i < length ?deps \<and> \<not> dep_outOfDate s (?deps ! i) \<and>
                reach s (d_variable (?deps ! i)) y"
        by auto
      then show ?thesis
      proof cases
        case timeout
        with True dead show ?thesis by (simp add: Let_def)
      next
        case ret
        have e: "\<forall>i. k \<le> i \<and> i < length ?deps \<and> \<not> dep_outOfDate s (?deps ! i) \<longrightarrow>
                v_outOfDate (heap r (d_variable (?deps ! i)))"
        proof (intro allI impI)
          fix i assume i: "k \<le> i \<and> i < length ?deps \<and> \<not> dep_outOfDate s (?deps ! i)"
          with dead have "i \<noteq> k" by auto
          with i have "Suc k \<le> i" by simp
          with i ret(4) show "v_outOfDate (heap r (d_variable (?deps ! i)))" by blast
        qed
        have so: "\<forall>y\<in>set order. \<exists>i. k \<le> i \<and> i < length ?deps \<and> \<not> dep_outOfDate s (?deps ! i) \<and>
                reach s (d_variable (?deps ! i)) y"
          using ret(6) Suc_leD by blast
        from True dead ret(1)
        have "mark_forEach (Suc n) run this k (length ?deps) marked removals s
                = Return (marked, removals') r" by (simp add: Let_def)
        with ret(2,3,5) e so show ?thesis by blast
      qed
    next
      case live: False
      from mark_okD[OF IHm se ms, of "d_variable ?dep"]
      consider (timeout) "mark n run (d_variable ?dep) marked s = Timeout"
        | (ret) r1 order1 where "mark n run (d_variable ?dep) marked s = Return marked r1"
            "mark_pass s r1" "followed s r1" "v_outOfDate (heap r1 (d_variable ?dep))"
            "fired eff order1 s r1" "\<forall>y\<in>set order1. reach s (d_variable ?dep) y"
        by auto
      then show ?thesis
      proof cases
        case timeout
        with True live show ?thesis by (simp add: Let_def)
      next
        case ret
        from ret(2) st have deps1: "v_dependents (heap r1 this) = ?deps"
          and st1: "v_outOfDate (heap r1 this)"
          by (simp_all add: mark_pass_def)
        from ret(2) ms have ms1: "\<forall>m\<in>set marked. v_outOfDate (heap r1 m)"
          by (simp add: mark_pass_def)
        note se1 = mark_pass_side_effect_only[OF ret(2) se]
        from loop_okD[OF IHl se1 st1 ms1, of "Suc k" removals]
        consider (timeout2) "mark_forEach n run this (Suc k) (length ?deps) marked removals r1 = Timeout"
          | (ret2) removals' r order2 where
            "mark_forEach n run this (Suc k) (length ?deps) marked removals r1
               = Return (marked, removals') r"
            "mark_pass r1 r" "followed r1 r"
            "\<forall>i. Suc k \<le> i \<and> i < length ?deps \<and> \<not> dep_outOfDate r1 (?deps ! i) \<longrightarrow>
                  v_outOfDate (heap r (d_variable (?deps ! i)))"
            "fired eff order2 r1 r"
            "\<forall>y\<in>set order2. \<exists>i. Suc k \<le> i \<and> i < length ?deps \<and> \<not> dep_outOfDate r1 (?deps ! i) \<and>
                  reach r1 (d_variable (?deps ! i)) y"
          unfolding deps1 by auto
        then show ?thesis
        proof cases
          case timeout2
          with True live ret(1) show ?thesis by (simp add: Let_def)
        next
          case ret2
          have mp: "mark_pass s r" by (rule mark_pass_trans[OF ret(2) ret2(2)])
          have fo: "followed s r" by (rule followed_trans[OF ret(2) ret2(2) ret(3) ret2(3)])
          have fi: "fired eff (order1 @ order2) s r"
            by (rule fired_trans[OF ret(2) ret2(2) ret(5) ret2(5)])
          have e: "\<forall>i. k \<le> i \<and> i < length ?deps \<and> \<not> dep_outOfDate s (?deps ! i) \<longrightarrow>
                v_outOfDate (heap r (d_variable (?deps ! i)))"
          proof (intro allI impI)
            fix i assume i: "k \<le> i \<and> i < length ?deps \<and> \<not> dep_outOfDate s (?deps ! i)"
            show "v_outOfDate (heap r (d_variable (?deps ! i)))"
            proof (cases "i = k")
              case True
              with ret(4) ret2(2) show ?thesis by (simp add: mark_pass_def)
            next
              case False
              with i have "Suc k \<le> i" by simp
              with i ret2(4) mark_pass_live[OF ret(2)] show ?thesis by simp
            qed
          qed
          have so: "\<forall>y\<in>set (order1 @ order2). \<exists>i. k \<le> i \<and> i < length ?deps \<and>
                \<not> dep_outOfDate s (?deps ! i) \<and> reach s (d_variable (?deps ! i)) y"
          proof
            fix y assume "y \<in> set (order1 @ order2)"
            then consider "y \<in> set order1" | "y \<in> set order2" by auto
            then show "\<exists>i. k \<le> i \<and> i < length ?deps \<and>
                \<not> dep_outOfDate s (?deps ! i) \<and> reach s (d_variable (?deps ! i)) y"
            proof cases
              case 1
              with ret(6) True live show ?thesis by (intro exI[of _ k]) simp
            next
              case 2
              with ret2(6) obtain i where i: "Suc k \<le> i" "i < length ?deps"
                "\<not> dep_outOfDate r1 (?deps ! i)" "reach r1 (d_variable (?deps ! i)) y" by blast
              from i(3) mark_pass_live[OF ret(2)] have "\<not> dep_outOfDate s (?deps ! i)" by simp
              moreover from reach_mark_pass[OF ret(2) i(4)] have "reach s (d_variable (?deps ! i)) y" .
              ultimately show ?thesis using i(1,2) by (intro exI[of _ i]) simp
            qed
          qed
          from True live ret(1) ret2(1)
          have "mark_forEach (Suc n) run this k (length ?deps) marked removals s
                  = Return (marked, removals') r" by (simp add: Let_def)
          with mp fo fi e so show ?thesis by blast
        qed
      qed
    qed
  qed
qed

lemma mark_ok_all: "mark_ok run eff n \<and> loop_ok run eff n"
proof (induction n)
  case 0
  show ?case by (simp add: mark_ok_def loop_ok_def)
next
  case (Suc n)
  with mark_ok_Suc loop_ok_Suc show ?case by blast
qed

lemma and_then_more_fuel:
  assumes "and_then m f \<noteq> Timeout"
    and "\<And>x r. m = Return x r \<Longrightarrow> f x r \<noteq> Timeout \<Longrightarrow> f' x r = f x r"
  shows "and_then m f' = and_then m f"
  using assms by (cases m) auto

lemma mark_Suc:
  "mark (Suc n) run this marked s =
     (if \<not> v_outOfDate (heap s this) \<and> this \<notin> set marked then
        and_then (executeOutOfDateDaemon run this (upd this (\<lambda>v. v\<lparr>v_outOfDate := True\<rparr>) s))
          (\<lambda>_ s1.
        and_then (mark_forEach n run this 0 (length (v_dependents (heap s1 this)))
                    (marked @ [this]) [] s1)
          (\<lambda>(marked, removals) s2.
             Return (butlast marked)
               (upd this (\<lambda>v. v\<lparr>v_dependents := remove_all removals (v_dependents v)\<rparr>) s2)))
      else Return marked s)"
  by simp

lemma mark_forEach_Suc:
  "mark_forEach (Suc n) run this k len marked removals s =
     (if k < len then
        (if k < length (v_dependents (heap s this)) then
           if dep_outOfDate s (v_dependents (heap s this) ! k)
           then mark_forEach n run this (Suc k) len marked (removals @ [v_dependents (heap s this) ! k]) s
           else and_then (mark n run (d_variable (v_dependents (heap s this) ! k)) marked s)
                  (\<lambda>marked1 s1. mark_forEach n run this (Suc k) len marked1 removals s1)
         else mark_forEach n run this (Suc k) len marked removals s)
      else Return (marked, removals) s)"
  by (simp add: Let_def)

lemma mark_more_fuel_both:
  "(\<forall>this marked s. mark n run this marked s \<noteq> Timeout \<longrightarrow>
       mark (Suc n) run this marked s = mark n run this marked s) \<and>
   (\<forall>this k len marked removals s. mark_forEach n run this k len marked removals s \<noteq> Timeout \<longrightarrow>
       mark_forEach (Suc n) run this k len marked removals s
         = mark_forEach n run this k len marked removals s)"
proof (induction n)
  case 0
  show ?case by simp
next
  case (Suc n)
  then have IHm: "\<And>this marked s. mark n run this marked s \<noteq> Timeout \<Longrightarrow>
       mark (Suc n) run this marked s = mark n run this marked s"
    and IHl: "\<And>this k len marked removals s. mark_forEach n run this k len marked removals s \<noteq> Timeout \<Longrightarrow>
       mark_forEach (Suc n) run this k len marked removals s
         = mark_forEach n run this k len marked removals s"
    by blast+
  have m: "mark (Suc (Suc n)) run this marked s = mark (Suc n) run this marked s"
    if nt: "mark (Suc n) run this marked s \<noteq> Timeout" for this marked s
  proof (cases "\<not> v_outOfDate (heap s this) \<and> this \<notin> set marked")
    case False
    then show ?thesis unfolding mark_Suc[of "Suc n"] mark_Suc[of n] by (auto simp del: mark.simps mark_forEach.simps)
  next
    case True
    let ?s0 = "upd this (\<lambda>v. v\<lparr>v_outOfDate := True\<rparr>) s"
    let ?post = "\<lambda>(marked, removals) s2.
             Return (butlast marked)
               (upd this (\<lambda>v. v\<lparr>v_dependents := remove_all removals (v_dependents v)\<rparr>) s2)"
    let ?f = "\<lambda>k (u::unit) s1. and_then (mark_forEach k run this 0 (length (v_dependents (heap s1 this)))
                    (marked @ [this]) [] s1) ?post"
    have L: "mark (Suc (Suc n)) run this marked s = and_then (executeOutOfDateDaemon run this ?s0) (?f (Suc n))"
      unfolding mark_Suc[of "Suc n"] using True by (simp del: mark.simps mark_forEach.simps)
    have R: "mark (Suc n) run this marked s = and_then (executeOutOfDateDaemon run this ?s0) (?f n)"
      unfolding mark_Suc[of n] using True by (simp del: mark.simps mark_forEach.simps)
    from nt have nt': "and_then (executeOutOfDateDaemon run this ?s0) (?f n) \<noteq> Timeout"
      unfolding R .
    have "and_then (executeOutOfDateDaemon run this ?s0) (?f (Suc n))
            = and_then (executeOutOfDateDaemon run this ?s0) (?f n)"
    proof (rule and_then_more_fuel[OF nt'])
      fix x r
      assume "?f n x r \<noteq> Timeout"
      then have "mark_forEach n run this 0 (length (v_dependents (heap r this))) (marked @ [this]) [] r
                   \<noteq> Timeout"
        by (auto simp: and_then_def split: outcome.splits)
      from IHl[OF this] show "?f (Suc n) x r = ?f n x r" by (simp del: mark.simps mark_forEach.simps)
    qed
    with L R show ?thesis by (simp del: mark.simps mark_forEach.simps)
  qed
  have l: "mark_forEach (Suc (Suc n)) run this k len marked removals s
         = mark_forEach (Suc n) run this k len marked removals s"
    if nt: "mark_forEach (Suc n) run this k len marked removals s \<noteq> Timeout"
    for this k len marked removals s
  proof (cases "k < len")
    case False
    then show ?thesis unfolding mark_forEach_Suc[of "Suc n"] mark_forEach_Suc[of n]
      by (auto simp del: mark.simps mark_forEach.simps)
  next
    case k: True
    show ?thesis
    proof (cases "k < length (v_dependents (heap s this))")
      case False
      from k False nt have "mark_forEach n run this (Suc k) len marked removals s \<noteq> Timeout"
        unfolding mark_forEach_Suc[of n] by (simp del: mark.simps mark_forEach.simps)
      from IHl[OF this] k False show ?thesis
        unfolding mark_forEach_Suc[of "Suc n" _ _ k] mark_forEach_Suc[of n _ _ k]
        by (simp del: mark.simps mark_forEach.simps)
    next
      case True
      let ?dep = "v_dependents (heap s this) ! k"
      show ?thesis
      proof (cases "dep_outOfDate s ?dep")
        case dead: True
        with k True nt have "mark_forEach n run this (Suc k) len marked (removals @ [?dep]) s \<noteq> Timeout"
          unfolding mark_forEach_Suc[of n] by (simp del: mark.simps mark_forEach.simps)
        from IHl[OF this] k True dead show ?thesis
          unfolding mark_forEach_Suc[of "Suc n" _ _ k] mark_forEach_Suc[of n _ _ k]
          by (simp del: mark.simps mark_forEach.simps)
      next
        case live: False
        let ?f = "\<lambda>j marked1 s1. mark_forEach j run this (Suc k) len marked1 removals s1"
        have L: "mark_forEach (Suc (Suc n)) run this k len marked removals s
                   = and_then (mark (Suc n) run (d_variable ?dep) marked s) (?f (Suc n))"
          unfolding mark_forEach_Suc[of "Suc n" _ _ k] using k True live by (simp del: mark.simps mark_forEach.simps)
        have R: "mark_forEach (Suc n) run this k len marked removals s
                   = and_then (mark n run (d_variable ?dep) marked s) (?f n)"
          unfolding mark_forEach_Suc[of n _ _ k] using k True live by (simp del: mark.simps mark_forEach.simps)
        from nt have nt': "and_then (mark n run (d_variable ?dep) marked s) (?f n) \<noteq> Timeout"
          unfolding R .
        then have "mark n run (d_variable ?dep) marked s \<noteq> Timeout" by (auto simp: and_then_def)
        from IHm[OF this]
        have e: "mark (Suc n) run (d_variable ?dep) marked s = mark n run (d_variable ?dep) marked s" .
        have "and_then (mark n run (d_variable ?dep) marked s) (?f (Suc n))
                = and_then (mark n run (d_variable ?dep) marked s) (?f n)"
          by (rule and_then_more_fuel[OF nt']) (rule IHl)
        with L R e show ?thesis by (simp del: mark.simps mark_forEach.simps)
      qed
    qed
  qed
  from m l show ?case by blast
qed

lemma mark_more_fuel:
  assumes "mark n run this marked s \<noteq> Timeout" and "n \<le> m"
  shows "mark m run this marked s = mark n run this marked s"
  using assms(2,1)
proof (induction m)
  case 0
  then show ?case by simp
next
  case (Suc m)
  show ?case
  proof (cases "n = Suc m")
    case True
    then show ?thesis by simp
  next
    case False
    with Suc have "mark m run this marked s = mark n run this marked s" by simp
    with Suc.prems(2) mark_more_fuel_both[of m run] show ?thesis by metis
  qed
qed

lemma mark_forEach_more_fuel:
  assumes "mark_forEach n run this k len marked removals s \<noteq> Timeout" and "n \<le> m"
  shows "mark_forEach m run this k len marked removals s = mark_forEach n run this k len marked removals s"
  using assms(2,1)
proof (induction m)
  case 0
  then show ?case by simp
next
  case (Suc m)
  show ?case
  proof (cases "n = Suc m")
    case True
    then show ?thesis by simp
  next
    case False
    with Suc have "mark_forEach m run this k len marked removals s
                    = mark_forEach n run this k len marked removals s" by simp
    with Suc.prems(2) mark_more_fuel_both[of m run] show ?thesis by metis
  qed
qed

lemma reach_marked:
  assumes mp: "mark_pass s r" and fo: "followed s r" and st: "v_outOfDate (heap r x)"
  shows "reach s x v \<Longrightarrow> \<not> v_outOfDate (heap s v) \<and> v_outOfDate (heap r v)"
proof (induction rule: reach.induct)
  case start
  with st show ?case by simp
next
  case (edge u dep)
  with fo show ?case unfolding followed_def by blast
qed

lemma fresh_mark_pass: "mark_pass s r \<Longrightarrow> fresh r \<subseteq> fresh s"
  by (auto simp: fresh_def mark_pass_def)


lemma fresh_marked_now: "fresh (marked_now eff this s) = fresh s - {this}"
  by (auto simp: fresh_def)

lemma closed_in_mark_pass: "mark_pass s r \<Longrightarrow> closed_in V s \<Longrightarrow> closed_in V r"
  unfolding closed_in_def mark_pass_def by metis

lemma closed_in_marked_now: "closed_in V s \<Longrightarrow> closed_in V (marked_now eff this s)"
  by (simp add: closed_in_def)

lemma loop_terminates:
  assumes V: "finite V"
    and IH: "\<And>t x mk. closed_in V t \<Longrightarrow> x \<in> V \<Longrightarrow> card (fresh t \<inter> V) \<le> c \<Longrightarrow> side_effect_only run eff t \<Longrightarrow>
               \<forall>m\<in>set mk. v_outOfDate (heap t m) \<Longrightarrow> \<exists>n. mark n run x mk t \<noteq> Timeout"
  shows "closed_in V s \<Longrightarrow> \<forall>dep\<in>set (v_dependents (heap s this)). d_variable dep \<in> V \<Longrightarrow>
         card (fresh s \<inter> V) \<le> c \<Longrightarrow> side_effect_only run eff s \<Longrightarrow>
         v_outOfDate (heap s this) \<Longrightarrow> \<forall>m\<in>set marked. v_outOfDate (heap s m) \<Longrightarrow>
         j = length (v_dependents (heap s this)) - k \<Longrightarrow>
         \<exists>n. mark_forEach n run this k (length (v_dependents (heap s this))) marked removals s \<noteq> Timeout"
proof (induction j arbitrary: k removals s)
  case 0
  then have "\<not> k < length (v_dependents (heap s this))" by simp
  then have "mark_forEach (Suc 0) run this k (length (v_dependents (heap s this))) marked removals s \<noteq> Timeout"
    unfolding mark_forEach_Suc by simp
  then show ?case by blast
next
  case (Suc j)
  let ?deps = "v_dependents (heap s this)"
  let ?dep = "?deps ! k"
  from Suc.prems have k: "k < length ?deps" and j: "j = length ?deps - Suc k" by simp_all
  show ?case
  proof (cases "dep_outOfDate s ?dep")
    case True
    from Suc.IH[OF Suc.prems(1-6) j, of "removals @ [?dep]"]
    obtain n where "mark_forEach n run this (Suc k) (length ?deps) marked (removals @ [?dep]) s \<noteq> Timeout"
      by blast
    with k True have "mark_forEach (Suc n) run this k (length ?deps) marked removals s \<noteq> Timeout"
      unfolding mark_forEach_Suc[of n _ _ k] by simp
    then show ?thesis by blast
  next
    case False
    from k Suc.prems(2) have inV: "d_variable ?dep \<in> V" by simp
    from IH[OF Suc.prems(1) inV Suc.prems(3,4,6)]
    obtain n1 where n1: "mark n1 run (d_variable ?dep) marked s \<noteq> Timeout" by blast
    from mark_ok_all[of run eff n1] have "mark_ok run eff n1" by simp
    from mark_okD[OF this Suc.prems(4,6), of "d_variable ?dep"] n1
    obtain r1 where r1: "mark n1 run (d_variable ?dep) marked s = Return marked r1"
      and mp: "mark_pass s r1" by blast
    from fresh_mark_pass[OF mp] have "fresh r1 \<inter> V \<subseteq> fresh s \<inter> V" by blast
    with V Suc.prems(3) have c1: "card (fresh r1 \<inter> V) \<le> c"
      by (meson card_mono finite_Int le_trans)
    note cl1 = closed_in_mark_pass[OF mp Suc.prems(1)]
    note oc1 = mark_pass_side_effect_only[OF mp Suc.prems(4)]
    from mp Suc.prems(5,6) have st1: "v_outOfDate (heap r1 this)"
      and ms1: "\<forall>m\<in>set marked. v_outOfDate (heap r1 m)"
      and deps1: "v_dependents (heap r1 this) = ?deps"
      by (simp_all add: mark_pass_def)
    from Suc.prems(2) deps1 have e1: "\<forall>dep\<in>set (v_dependents (heap r1 this)). d_variable dep \<in> V"
      by simp
    from j deps1 have j1: "j = length (v_dependents (heap r1 this)) - Suc k" by simp
    from Suc.IH[OF cl1 e1 c1 oc1 st1 ms1 j1, of removals] deps1
    obtain n2 where n2: "mark_forEach n2 run this (Suc k) (length ?deps) marked removals r1 \<noteq> Timeout"
      by auto
    let ?n = "max n1 n2"
    from mark_more_fuel[OF n1, of ?n] r1
    have a: "mark ?n run (d_variable ?dep) marked s = Return marked r1" by simp
    from mark_forEach_more_fuel[OF n2, of ?n] n2
    have b: "mark_forEach ?n run this (Suc k) (length ?deps) marked removals r1 \<noteq> Timeout" by simp
    from k False a b have "mark_forEach (Suc ?n) run this k (length ?deps) marked removals s \<noteq> Timeout"
      unfolding mark_forEach_Suc[of ?n _ _ k] by simp
    then show ?thesis by blast
  qed
qed

lemma mark_terminates:
  assumes V: "finite V"
  shows "closed_in V s \<Longrightarrow> this \<in> V \<Longrightarrow> card (fresh s \<inter> V) \<le> c \<Longrightarrow> side_effect_only run eff s \<Longrightarrow>
         \<forall>m\<in>set marked. v_outOfDate (heap s m) \<Longrightarrow> \<exists>n. mark n run this marked s \<noteq> Timeout"
proof (induction c arbitrary: s this marked)
  case 0
  with V have "fresh s \<inter> V = {}" by simp
  with 0 have "v_outOfDate (heap s this)" by (auto simp: fresh_def)
  then have "mark (Suc 0) run this marked s \<noteq> Timeout" unfolding mark_Suc by simp
  then show ?case by blast
next
  case (Suc c)
  show ?case
  proof (cases "v_outOfDate (heap s this)")
    case True
    then have "mark (Suc 0) run this marked s \<noteq> Timeout" unfolding mark_Suc by simp
    then show ?thesis by blast
  next
    case False
    with Suc.prems(5) have nm: "this \<notin> set marked" by blast
    let ?s0 = "upd this (\<lambda>v. v\<lparr>v_outOfDate := True\<rparr>) s"
    let ?s1 = "marked_now eff this s"
    note d = daemon_fires[OF Suc.prems(4), of this]
    from False Suc.prems(2) have "this \<in> fresh s \<inter> V" by (simp add: fresh_def)
    moreover have "fresh ?s1 \<inter> V = (fresh s \<inter> V) - {this}" by (auto simp: fresh_marked_now)
    ultimately have c1: "card (fresh ?s1 \<inter> V) \<le> c"
      using V Suc.prems(3) by simp
    from False Suc.prems(1,2) have e1: "\<forall>dep\<in>set (v_dependents (heap ?s1 this)). d_variable dep \<in> V"
      by (simp add: closed_in_def)
    note cl1 = closed_in_marked_now[OF Suc.prems(1), of eff this]
    have h1: "side_effect_only run eff ?s1" by (rule marked_now_side_effect_only[OF Suc.prems(4)])
    have h2: "v_outOfDate (heap ?s1 this)" by simp
    have h3: "\<forall>m\<in>set (marked @ [this]). v_outOfDate (heap ?s1 m)" using Suc.prems(5) by simp
    from loop_terminates[OF V Suc.IH cl1 e1 c1 h1 h2 h3 refl, of 0 "[]"]
    obtain n where n: "mark_forEach n run this 0 (length (v_dependents (heap ?s1 this)))
                          (marked @ [this]) [] ?s1 \<noteq> Timeout"
      by blast
    from mark_ok_all[of run eff n] have "loop_ok run eff n" by simp
    from loop_okD[OF this h1 h2 h3, of 0 "[]"] n
    obtain removals' r where "mark_forEach n run this 0 (length (v_dependents (heap ?s1 this)))
                          (marked @ [this]) [] ?s1 = Return (marked @ [this], removals') r"
      by blast
    with False nm d have "mark (Suc n) run this marked s \<noteq> Timeout"
      unfolding mark_Suc[of n] by simp
    then show ?thesis by blast
  qed
qed

lemma mark_total:
  assumes se: "side_effect_only run eff s" and V: "finite V" and cl: "closed_in V s" and x: "x \<in> V"
  shows "\<exists>N r order. (\<forall>n\<ge>N. mark n run x [] s = Return [] r) \<and> mark_pass s r \<and> followed s r \<and>
               v_outOfDate (heap r x) \<and> fired eff order s r \<and> (\<forall>y\<in>set order. reach s x y)"
proof -
  from mark_terminates[OF V cl x le_refl se, of "[]"]
  obtain N where N: "mark N run x [] s \<noteq> Timeout" by auto
  from mark_ok_all[of run eff N] have "mark_ok run eff N" by simp
  from mark_okD[OF this se, of "[]" x] N
  obtain r order where r: "mark N run x [] s = Return [] r" "mark_pass s r" "followed s r"
    "v_outOfDate (heap r x)" "fired eff order s r" "\<forall>y\<in>set order. reach s x y" by auto
  from mark_more_fuel[OF N] r(1) have "\<forall>n\<ge>N. mark n run x [] s = Return [] r" by simp
  with r show ?thesis by blast
qed

lemma reach_same:
  assumes "\<forall>y. v_outOfDate (heap s' y) = v_outOfDate (heap s y) \<and>
               v_dependents (heap s' y) = v_dependents (heap s y) \<and>
               tick (heap s' y) = tick (heap s y)"
  shows "reach s x v \<Longrightarrow> reach s' x v"
proof (induction rule: reach.induct)
  case start
  with assms show ?case by (simp add: reach.start)
next
  case (edge u dep)
  with assms have "dep \<in> set (v_dependents (heap s' u))" "\<not> dep_outOfDate s' dep"
    "\<not> v_outOfDate (heap s' (d_variable dep))"
    by (simp_all add: dep_outOfDate_def)
  with edge.IH show ?case by (rule reach.edge)
qed


lemma pass_exact:
  assumes mp: "mark_pass s r" and fo: "followed s r" and st: "v_outOfDate (heap r x)"
    and fi: "fired eff order s r" and so: "\<forall>y\<in>set order. reach s x y"
  shows "v_outOfDate (heap r y) \<longleftrightarrow> v_outOfDate (heap s y) \<or> reach s x y"
    and "y \<in> set order \<longleftrightarrow> reach s x y"
proof -
  from fi have m: "y \<in> set order \<longleftrightarrow> \<not> v_outOfDate (heap s y) \<and> v_outOfDate (heap r y)"
    by (simp add: fired_def)
  from reach_marked[OF mp fo st]
  have re: "reach s x y \<Longrightarrow> \<not> v_outOfDate (heap s y) \<and> v_outOfDate (heap r y)" .
  from m re so show "y \<in> set order \<longleftrightarrow> reach s x y" by blast
  from m re so mark_passD(6)[OF mp, of y]
  show "v_outOfDate (heap r y) \<longleftrightarrow> v_outOfDate (heap s y) \<or> reach s x y" by blast
qed

lemma side_effect_only_fewer:
  "\<forall>x d. v_outOfDateDaemon (heap r x) = Some d \<longrightarrow> v_outOfDateDaemon (heap s x) = Some d \<Longrightarrow>
     side_effect_only run eff s \<Longrightarrow> side_effect_only run eff r"
  unfolding side_effect_only_def by blast

lemma foldl_fire_skip:
  assumes "f x = (\<lambda>c. c)" and "\<forall>y. y \<noteq> x \<longrightarrow> f y = g y"
  shows "foldl (\<lambda>c y. f y c) c order = foldl (\<lambda>c y. g y c) c (filter (\<lambda>y. y \<noteq> x) order)"
  using assms by (induction order arbitrary: c) auto

lemma run_script_ticks:
  "snd (run_script n cs s) = Some r \<Longrightarrow> tick (heap s y) \<le> tick (heap r y)"
proof (induction cs arbitrary: s)
  case Nil
  then show ?case by simp
next
  case (Cons c cs)
  note le = keeps_execD[OF engine_rule_ticks, of n c s]
  show ?case
  proof (cases "exec n c s")
    case Timeout
    with Cons.prems show ?thesis by simp
  next
    case (Raise e s1)
    with Cons.prems have "snd (run_script n cs s1) = Some r" by (simp split: prod.splits)
    from Cons.IH[OF this] le(2)[OF Raise] show ?thesis by (auto simp: ticks_le_def intro: order_trans)
  next
    case (Return v s1)
    with Cons.prems have "snd (run_script n cs s1) = Some r" by (simp split: prod.splits)
    from Cons.IH[OF this] le(1)[OF Return] show ?thesis by (auto simp: ticks_le_def intro: order_trans)
  qed
qed


lemma setter_ticks:
  assumes se: "side_effect_only run eff s0"
    and ret: "and_then (mark n run x [] s0) f = Return u r"
    and f: "\<And>m s1. \<exists>r1. f m s1 = Return u r1 \<and> tick (heap r1 y) = tick (heap s1 y)"
  shows "tick (heap r y) = tick (heap s0 y)"
proof -
  from mark_ok_all[of run eff n] have "mark_ok run eff n" by simp
  from mark_okD[OF this se, of "[]" x] ret
  obtain r1 where r1: "mark n run x [] s0 = Return [] r1" "mark_pass s0 r1" by auto
  from f[of "[]" r1] ret r1(1) have "tick (heap r y) = tick (heap r1 y)" by auto
  with mark_passD(5)[OF r1(2), of y] show ?thesis by simp
qed

subsection \<open>Callables built from the caller's own state\<close>

lemma inert_exec:
  "inert d \<Longrightarrow> cost d \<le> n \<Longrightarrow>
     exec n d t = Return (fst (effect d (caller t))) (set_caller (snd (effect d (caller t))) t)"
proof (induction d arbitrary: n t)
  case (Lit v)
  then obtain k where "n = Suc k" by (cases n) auto
  then show ?case by simp
next
  case (Bump j)
  then obtain k where "n = Suc k" by (cases n) auto
  then show ?case by (simp add: set_caller_def caller_def)
next
  case (Counter j)
  then obtain k where "n = Suc k" by (cases n) auto
  then show ?case by (simp add: caller_def)
next
  case (Emit e)
  then obtain k where n: "n = Suc k" by (cases n) auto
  with Emit.prems have "inert e" "cost e \<le> k" by simp_all
  from Emit.IH[OF this] n show ?case
    by (simp add: set_caller_def caller_def split: prod.splits)
next
  case (Mul a b)
  then obtain k where n: "n = Suc k" by (cases n) auto
  with Mul.prems have a: "inert a" "cost a \<le> k" and b: "inert b" "cost b \<le> k" by simp_all
  from Mul.IH(1)[OF a] Mul.IH(2)[OF b] n show ?case
    by (simp add: split: prod.splits)
next
  case (Add a b)
  then obtain k where n: "n = Suc k" by (cases n) auto
  with Add.prems have a: "inert a" "cost a \<le> k" and b: "inert b" "cost b \<le> k" by simp_all
  from Add.IH(1)[OF a] Add.IH(2)[OF b] n show ?case
    by (simp add: split: prod.splits)
next
  case (Seq a b)
  then obtain k where n: "n = Suc k" by (cases n) auto
  with Seq.prems have a: "inert a" "cost a \<le> k" and b: "inert b" "cost b \<le> k" by simp_all
  from Seq.IH(1)[OF a] Seq.IH(2)[OF b] n show ?case
    by (simp add: split: prod.splits)
qed simp_all

lemma inert_side_effect_only:
  assumes "inert_daemons k s"
  shows "side_effect_only (exec k) (daemon_effect s) s"
  unfolding side_effect_only_def
proof (intro allI impI)
  fix x d t
  assume d: "v_outOfDateDaemon (heap s x) = Some d"
  with assms have "inert d" "cost d \<le> k" by (simp_all add: inert_daemons_def)
  from inert_exec[OF this, of t] d
  show "\<exists>v. exec k d t = Return v (set_caller (daemon_effect s x (caller t)) t)"
    by (simp add: daemon_effect_def)
qed

lemma fire_daemon_effect: "fire (daemon_effect s) s x c = daemon_effect s x c"
  by (simp add: fire_def daemon_effect_def)

lemma foldl_own_counters:
  assumes "distinct order"
    and "\<forall>y\<in>set order. \<forall>d. v_outOfDateDaemon (heap s y) = Some d \<longrightarrow> d = Bump y"
  shows "fst (foldl (\<lambda>c y. fire (daemon_effect s) s y c) c order) k =
           fst c k + (if k \<in> set order \<and> v_outOfDateDaemon (heap s k) \<noteq> None then 1 else 0)"
  using assms
proof (induction order arbitrary: c)
  case Nil
  show ?case by simp
next
  case (Cons a order)
  let ?c = "fire (daemon_effect s) s a c"
  from Cons.prems have one: "fst ?c k = fst c k + (if k = a \<and> v_outOfDateDaemon (heap s a) \<noteq> None then 1 else 0)"
    by (cases "v_outOfDateDaemon (heap s a)") (auto simp: fire_def daemon_effect_def)
  from Cons.prems have "distinct order"
    "\<forall>y\<in>set order. \<forall>d. v_outOfDateDaemon (heap s y) = Some d \<longrightarrow> d = Bump y" by simp_all
  from Cons.IH[OF this, of ?c] one Cons.prems(1) show ?case by auto
qed

subsection \<open>The diamond after one read\<close>

lemmas diamond_simps = diamond_read_def diamond_def eval_simps

lemma diamond_read_cells:
  "v_dependents (heap diamond_read 0) =
     [\<lparr>d_id = 1, d_variable = 1, d_tick = 1\<rparr>, \<lparr>d_id = 3, d_variable = 2, d_tick = 1\<rparr>]"
  "v_dependents (heap diamond_read (Suc 0)) = [\<lparr>d_id = 0, d_variable = 3, d_tick = 1\<rparr>]"
  "v_dependents (heap diamond_read 2) = [\<lparr>d_id = 2, d_variable = 3, d_tick = 1\<rparr>]"
  "v_dependents (heap diamond_read 3) = []"
  "\<not> v_outOfDate (heap diamond_read 0)" "\<not> v_outOfDate (heap diamond_read (Suc 0))"
  "\<not> v_outOfDate (heap diamond_read 2)" "\<not> v_outOfDate (heap diamond_read 3)"
  "tick (heap diamond_read (Suc 0)) = 1" "tick (heap diamond_read 2) = 1" "tick (heap diamond_read 3) = 1"
  "v_outOfDateDaemon (heap diamond_read 3) = Some (Bump 3)"
  by (simp_all add: diamond_simps)

lemma diamond_read_inert: "inert_daemons 1 diamond_read"
  by (simp add: inert_daemons_def diamond_simps)

lemma diamond_read_own_counters:
  "\<forall>y\<in>set order. \<forall>d. v_outOfDateDaemon (heap diamond_read y) = Some d \<longrightarrow> d = Bump y"
  by (simp add: diamond_simps)

lemma diamond_read_closed: "closed_in {0, 1, 2, 3} diamond_read"
  by (simp add: closed_in_def diamond_read_cells)

lemma diamond_read_reach: "reach diamond_read 0 3"
proof -
  have "reach diamond_read 0 0" by (rule reach.start) (simp add: diamond_read_cells)
  then have "reach diamond_read 0 (d_variable \<lparr>d_id = 1, d_variable = 1, d_tick = 1\<rparr>)"
    by (rule reach.edge) (simp_all add: diamond_read_cells dep_outOfDate_def)
  then have "reach diamond_read 0 1" by simp
  then have "reach diamond_read 0 (d_variable \<lparr>d_id = 0, d_variable = 3, d_tick = 1\<rparr>)"
    by (rule reach.edge) (simp_all add: diamond_read_cells dep_outOfDate_def)
  then show ?thesis by simp
qed

lemma reach_closed:
  assumes "closed_in V s" and "x \<in> V"
  shows "reach s x y \<Longrightarrow> y \<in> V"
proof (induction rule: reach.induct)
  case start
  from assms(2) show ?case .
next
  case (edge u dep)
  from reach_fresh[OF edge.hyps(1)] have "\<not> v_outOfDate (heap s u)" by simp
  with assms(1) edge.IH edge.hyps(2) show ?case unfolding closed_in_def by blast
qed

subsection \<open>Scenario 1 and the chain, marked\<close>

lemma scenario1_marked_cells:
  "v_dependents (heap scenario1_marked 0) = [\<lparr>d_id = 0, d_variable = 1, d_tick = 1\<rparr>]"
  "v_dependents (heap scenario1_marked (Suc 0)) = []"
  "\<not> v_outOfDate (heap scenario1_marked 0)" "v_outOfDate (heap scenario1_marked (Suc 0))"
  "tick (heap scenario1_marked (Suc 0)) = 1"
  "globals scenario1_marked 0 = 1"
  by (simp_all add: scenario1_marked_def scenario1_def eval_simps)

lemma scenario1_marked_inert: "inert_daemons 1 scenario1_marked"
  by (simp add: inert_daemons_def scenario1_marked_def scenario1_def eval_simps)

lemma scenario1_marked_closed: "closed_in {0, 1} scenario1_marked"
  by (simp add: closed_in_def scenario1_marked_cells)

lemma chain_stale_cells:
  "v_outOfDate (heap chain_stale (Suc 0))" "\<not> v_outOfDate (heap chain_stale 2)"
  "v_dependents (heap chain_stale (Suc 0)) = [\<lparr>d_id = 0, d_variable = 2, d_tick = 1\<rparr>]"
  "tick (heap chain_stale 2) = 1"
  by (simp_all add: chain_stale_def chain_def eval_simps)

subsection \<open>Scenario 1\<close>

text \<open>
  C3 (as stated, refuted). With no read before the first write, no Dependency from
  \<open>x\<close> to \<open>y\<close> exists yet, so the mark pass of \<open>x.value = 1\<close> does not reach \<open>y\<close>:
  the daemon counter \<open>n\<close> is 0 after the first write, not 1.
\<close>

theorem scenario1_first_write_counterexample:
  "fst (run_script 10 [SetValue 0 (Lit (Num 1)), Counter 0] scenario1)
     = [Value (Num 1), Value (Num 0)]"
  by (simp add: scenario1_def eval_simps)

text \<open>
  C3 (amended). In the program of Scenario 1 with no read beforehand, after
  \<open>x.value = 1\<close> the counter \<open>n\<close> is 0, \<open>x.value\<close> is 1 and \<open>y.value\<close> is 10; after
  \<open>x.value = 2\<close> the counter is 1 and \<open>y.value\<close> is 20. When \<open>x.value\<close> and
  \<open>y.value\<close> are read first, as the repository's test does, the counter is 0, then 1
  after the first write and 2 after the second.
\<close>

theorem scenario1_observations:
  "fst (run_script 10
          [SetValue 0 (Lit (Num 1)), Counter 0, Get 0, Get 1,
           SetValue 0 (Lit (Num 2)), Counter 0, Get 1] scenario1)
     = [Value (Num 1), Value (Num 0), Value (Num 1), Value (Num 10),
        Value (Num 2), Value (Num 1), Value (Num 20)]
   \<and> fst (run_script 10
          [Get 0, Get 1, Counter 0,
           SetValue 0 (Lit (Num 1)), Counter 0, Get 0, Get 1,
           SetValue 0 (Lit (Num 2)), Counter 0, Get 1] scenario1)
     = [Value (Num 0), Value (Num 0), Value (Num 0),
        Value (Num 1), Value (Num 1), Value (Num 1), Value (Num 10),
        Value (Num 2), Value (Num 2), Value (Num 20)]"
  by (simp add: scenario1_def eval_simps)

subsection \<open>Reading a Variable that has no formula\<close>

text \<open>
  C1 (the code fails the claim). \<open>computeFormula\<close> tests \<open>_outOfDate\<close> only. After
  \<open>v.value\<close>, \<open>v.value = 5\<close>, \<open>u.value = 9\<close> the Variable \<open>v\<close> has no formula, the
  edge from \<open>u\<close> to \<open>v\<close> is still current, and the mark pass of the last write
  has set \<open>v\<close> out of date: the next \<open>v.value\<close> calls \<open>bind\<close> on \<open>null\<close> and
  throws a TypeError instead of returning 5.
\<close>

theorem read_without_formula_throws:
  "fst (run_script 10
          [Get 1, SetValue 1 (Lit (Num 5)), SetValue 0 (Lit (Num 9)), Peek 1, Get 1]
          former_formula)
     = [Value (Num 0), Value (Num 5), Value (Num 9), Value (Num 5), Error TypeError]"
  by (simp add: former_formula_def eval_simps)

subsection \<open>One Dependency per dependent Variable\<close>

text \<open>
  C8. Every \<open>_dependents\<close> array holds at most one Dependency per dependent
  Variable: this holds in a new system, is kept by the constructor and by
  every run of any callable or statement, whether it returns or throws. Once
  the flush that starts a read has returned, the read of a Variable that is
  not out of date returns the stored value and changes nothing but the
  \<open>_dependents\<close> of the Variable read: with an empty demand stack these stay
  as they are; under a demander (the top of \<open>demandingVariables\<close>) an edge to
  the demander is appended only if none exists, the edge to the demander
  carries the demander's tick plus one, and the other edges are the ones there
  were. A read of a Variable that is out of date records the edge in the same
  way before its formula runs, or before it throws for want of a formula.
\<close>

theorem dependents_deduplicated:
  assumes "deduplicated s"
  shows "(exec n e s = Return v r \<or> exec n e s = Raise err r \<longrightarrow> deduplicated r)
       \<and> deduplicated (new_Variable y w f c d s)
       \<and> (executeDaemons (exec n) s = Return () s' \<and> \<not> v_outOfDate (heap s' x) \<longrightarrow>
            (\<exists>t. exec (Suc n) (Get x) s = Return (v_value (heap s' x)) t \<and>
                 deduplicated t \<and>
                 (\<forall>z. z \<noteq> x \<longrightarrow> heap t z = heap s' z) \<and>
                 (demandingVariables s' = [] \<longrightarrow> t = s') \<and>
                 (demandingVariables s' \<noteq> [] \<longrightarrow>
                    map d_variable (v_dependents (heap t x)) =
                      (if last (demandingVariables s') \<in> d_variable ` set (v_dependents (heap s' x))
                       then map d_variable (v_dependents (heap s' x))
                       else map d_variable (v_dependents (heap s' x)) @ [last (demandingVariables s')]) \<and>
                    (\<forall>dep \<in> set (v_dependents (heap t x)).
                       if d_variable dep = last (demandingVariables s')
                       then d_tick dep = tick (heap s' (last (demandingVariables s'))) + 1
                       else dep \<in> set (v_dependents (heap s' x))))))
       \<and> (executeDaemons (exec n) s = Return () s' \<and> v_outOfDate (heap s' x) \<and>
            demandingVariables s' \<noteq> [] \<longrightarrow>
            (\<exists>t. exec (Suc n) (Get x) s =
                   (case v_formula (heap s' x) of
                      None \<Rightarrow> Raise TypeError (enter x t)
                    | Some g \<Rightarrow> and_then (exec n g (enter x t)) (\<lambda>v r. Return v (leave x v r))) \<and>
                 deduplicated t \<and>
                 map d_variable (v_dependents (heap t x)) =
                   (if last (demandingVariables s') \<in> d_variable ` set (v_dependents (heap s' x))
                    then map d_variable (v_dependents (heap s' x))
                    else map d_variable (v_dependents (heap s' x)) @ [last (demandingVariables s')]) \<and>
                 (\<forall>dep \<in> set (v_dependents (heap t x)).
                    if d_variable dep = last (demandingVariables s')
                    then d_tick dep = tick (heap s' (last (demandingVariables s'))) + 1
                    else dep \<in> set (v_dependents (heap s' x)))))"
proof -
  let ?t = "updateDependencies x s'"
  let ?d = "last (demandingVariables s')"
  have inv: "deduplicated r" if "exec n e s = Return v r \<or> exec n e s = Raise err r"
    using that keeps_execD[OF engine_rule_deduplicated, of n e s] assms
    by (auto simp: keeps_deduplicated_def)
  have others: "\<forall>z. z \<noteq> x \<longrightarrow> heap ?t z = heap s' z"
    by (simp add: updateDependencies_def Let_def split: option.split)
  have vars: "map d_variable (v_dependents (heap ?t x)) =
                (if ?d \<in> d_variable ` set (v_dependents (heap s' x))
                 then map d_variable (v_dependents (heap s' x))
                 else map d_variable (v_dependents (heap s' x)) @ [?d])"
    if "demandingVariables s' \<noteq> []"
    using that by (simp add: updateDependencies_variables)
  have flushed: "deduplicated s' \<and> deduplicated ?t" if fl: "executeDaemons (exec n) s = Return () s'"
  proof -
    have "keeps keeps_deduplicated keeps_deduplicated s (executeDaemons (exec n) s)"
      by (rule keeps_executeDaemons[OF engine_rule_deduplicated run_keeps_exec[OF engine_rule_deduplicated]])
    with fl assms have "deduplicated s'" by (simp add: keeps_deduplicated_def)
    with deduplicated_updateDependencies show ?thesis by blast
  qed
  have edges: "\<forall>dep \<in> set (v_dependents (heap ?t x)).
                 if d_variable dep = ?d then d_tick dep = tick (heap s' ?d) + 1
                 else dep \<in> set (v_dependents (heap s' x))"
    if st: "demandingVariables s' \<noteq> []" and ded1: "deduplicated s'"
  proof
    fix dep assume mem: "dep \<in> set (v_dependents (heap ?t x))"
    show "if d_variable dep = ?d then d_tick dep = tick (heap s' ?d) + 1
          else dep \<in> set (v_dependents (heap s' x))"
    proof (cases "d_variable dep = ?d")
      case True
      with updateDependencies_refreshed[OF ded1 st mem] show ?thesis by simp
    next
      case False
      with updateDependencies_kept[OF mem] show ?thesis by simp
    qed
  qed
  have read: "\<exists>t. exec (Suc n) (Get x) s = Return (v_value (heap s' x)) t \<and>
                 deduplicated t \<and>
                 (\<forall>z. z \<noteq> x \<longrightarrow> heap t z = heap s' z) \<and>
                 (demandingVariables s' = [] \<longrightarrow> t = s') \<and>
                 (demandingVariables s' \<noteq> [] \<longrightarrow>
                    map d_variable (v_dependents (heap t x)) =
                      (if ?d \<in> d_variable ` set (v_dependents (heap s' x))
                       then map d_variable (v_dependents (heap s' x))
                       else map d_variable (v_dependents (heap s' x)) @ [?d]) \<and>
                    (\<forall>dep \<in> set (v_dependents (heap t x)).
                       if d_variable dep = ?d then d_tick dep = tick (heap s' ?d) + 1
                       else dep \<in> set (v_dependents (heap s' x))))"
    if h: "executeDaemons (exec n) s = Return () s' \<and> \<not> v_outOfDate (heap s' x)"
  proof -
    from h have "exec (Suc n) (Get x) s = Return (v_value (heap s' x)) ?t"
      by (simp add: get_value_def sweep_def computeFormula_enter_leave)
    with flushed h others vars edges updateDependencies_top[of s' x] show ?thesis by blast
  qed
  have recompute: "\<exists>t. exec (Suc n) (Get x) s =
                   (case v_formula (heap s' x) of
                      None \<Rightarrow> Raise TypeError (enter x t)
                    | Some g \<Rightarrow> and_then (exec n g (enter x t)) (\<lambda>v r. Return v (leave x v r))) \<and>
                 deduplicated t \<and>
                 map d_variable (v_dependents (heap t x)) =
                   (if ?d \<in> d_variable ` set (v_dependents (heap s' x))
                    then map d_variable (v_dependents (heap s' x))
                    else map d_variable (v_dependents (heap s' x)) @ [?d]) \<and>
                 (\<forall>dep \<in> set (v_dependents (heap t x)).
                    if d_variable dep = ?d then d_tick dep = tick (heap s' ?d) + 1
                    else dep \<in> set (v_dependents (heap s' x)))"
    if h: "executeDaemons (exec n) s = Return () s' \<and> v_outOfDate (heap s' x) \<and>
            demandingVariables s' \<noteq> []"
  proof -
    have "exec (Suc n) (Get x) s =
            (case v_formula (heap s' x) of
               None \<Rightarrow> Raise TypeError (enter x ?t)
             | Some g \<Rightarrow> and_then (exec n g (enter x ?t)) (\<lambda>v r. Return v (leave x v r)))"
    proof (cases "v_formula (heap s' x)")
      case None
      with h show ?thesis
        by (simp add: get_value_def sweep_def computeFormula_enter_leave)
    next
      case (Some g)
      have "v_value (heap (leave x v r) x) = v" for v r by (simp add: leave_def Let_def)
      with h Some show ?thesis
        by (cases "exec n g (enter x ?t)")
           (simp_all add: get_value_def sweep_def computeFormula_enter_leave)
    qed
    with flushed vars edges h show ?thesis by blast
  qed
  from inv read recompute assms show ?thesis
    by (simp add: deduplicated_new_Variable)
qed

theorem dependents_deduplicated_witness:
  "deduplicated scenario1
   \<and> (\<exists>v r. exec 10 (Get 1) scenario1 = Return v r \<and> deduplicated r)
   \<and> deduplicated (new_Variable 2 Null None Null None scenario1)
   \<and> demandingVariables (enter 1 scenario1) = [1]
   \<and> v_dependents (heap (enter 1 scenario1) 0) = []
   \<and> (\<exists>t. exec 1 (Get 0) (enter 1 scenario1) = Return (Num 0) t
          \<and> map d_variable (v_dependents (heap t 0)) = [1]
          \<and> list_all (\<lambda>dep. d_tick dep = 1) (v_dependents (heap t 0)))
   \<and> demandingVariables (enter 1 scenario1_marked) = [1]
   \<and> v_dependents (heap (enter 1 scenario1_marked) 0) = [\<lparr>d_id = 0, d_variable = 1, d_tick = 1\<rparr>]
   \<and> tick (heap (enter 1 scenario1_marked) 1) = 1
   \<and> (\<exists>t. exec 1 (Get 0) (enter 1 scenario1_marked) = Return (Num 1) t
          \<and> map d_variable (v_dependents (heap t 0)) = [1]
          \<and> list_all (\<lambda>dep. d_tick dep = 2) (v_dependents (heap t 0)))
   \<and> v_outOfDate (heap (enter 2 chain) 1)
   \<and> (\<exists>t. exec 3 (Get 1) (enter 2 chain)
            = and_then (exec 2 (Get 0) (enter 1 t)) (\<lambda>v r. Return v (leave 1 v r))
          \<and> map d_variable (v_dependents (heap t 1)) = [2]
          \<and> list_all (\<lambda>dep. d_tick dep = 1) (v_dependents (heap t 1)))
   \<and> map_option (\<lambda>s. v_dependents (heap s 0))
        (snd (run_script 10 [Get 1, SetValue 0 (Lit (Num 1)), Get 1] scenario1))
       = Some [\<lparr>d_id = 0, d_variable = 1, d_tick = 2\<rparr>]"
proof -
  have ded: "deduplicated scenario1"
    by (simp add: scenario1_def deduplicated_new_Variable deduplicated_new_ConstraintSystem)
  obtain v r where ex: "exec 10 (Get 1) scenario1 = Return v r"
    by (simp add: scenario1_def eval_simps)
  from dependents_deduplicated[OF ded, of 10 "Get 1" v r _ 2 Null None Null None] ex
  have 1: "deduplicated r" "deduplicated (new_Variable 2 Null None Null None scenario1)" by simp_all
  let ?a = "enter 1 scenario1"
  have a: "demandingVariables ?a = [1]" "v_dependents (heap ?a 0) = []" "daemonQueue ?a = []"
    "\<not> v_outOfDate (heap ?a 0)" "v_value (heap ?a 0) = Num 0" "tick (heap ?a 1) = 0"
    "executeDaemons (exec 0) ?a = Return () ?a"
    by (simp_all add: enter_def scenario1_def eval_simps)
  have deda: "deduplicated ?a" using ded by simp
  from dependents_deduplicated[OF deda, where n=0 and x=0 and s'="?a" and e="Lit Null" and v=Null and r=scenario1 and err=TypeError and y=0 and w=Null and f=None and c=Null and d=None] a
  obtain ta where "exec 1 (Get 0) ?a = Return (Num 0) ta"
    "map d_variable (v_dependents (heap ta 0)) = [1]"
    "\<forall>dep\<in>set (v_dependents (heap ta 0)). if d_variable dep = 1 then d_tick dep = 1 else False"
    by (auto cong: if_cong)
  then have 2: "\<exists>t. exec 1 (Get 0) ?a = Return (Num 0) t
          \<and> map d_variable (v_dependents (heap t 0)) = [1]
          \<and> list_all (\<lambda>dep. d_tick dep = 1) (v_dependents (heap t 0))"
    by (auto simp: list_all_iff split: if_splits)
  let ?b = "enter 1 scenario1_marked"
  have b: "demandingVariables ?b = [1]"
    "v_dependents (heap ?b 0) = [\<lparr>d_id = 0, d_variable = 1, d_tick = 1\<rparr>]" "daemonQueue ?b = []"
    "\<not> v_outOfDate (heap ?b 0)" "v_value (heap ?b 0) = Num 1" "tick (heap ?b 1) = 1"
    "executeDaemons (exec 0) ?b = Return () ?b"
    by (simp_all add: enter_def scenario1_marked_def scenario1_def eval_simps)
  have dedb: "deduplicated ?b"
    by (simp add: deduplicated_def enter_def scenario1_marked_def scenario1_def eval_simps)
  from dependents_deduplicated[OF dedb, where n=0 and x=0 and s'="?b" and e="Lit Null" and v=Null and r=scenario1 and err=TypeError and y=0 and w=Null and f=None and c=Null and d=None] b
  obtain tb where "exec 1 (Get 0) ?b = Return (Num 1) tb"
    "map d_variable (v_dependents (heap tb 0)) = [1]"
    "\<forall>dep\<in>set (v_dependents (heap tb 0)).
       if d_variable dep = 1 then d_tick dep = 2
       else dep \<in> set [\<lparr>d_id = 0, d_variable = 1, d_tick = 1\<rparr>]"
    by (auto cong: if_cong)
  then have 3: "\<exists>t. exec 1 (Get 0) ?b = Return (Num 1) t
          \<and> map d_variable (v_dependents (heap t 0)) = [1]
          \<and> list_all (\<lambda>dep. d_tick dep = 2) (v_dependents (heap t 0))"
    by (auto simp: list_all_iff split: if_splits)
  let ?c = "enter 2 chain"
  have c: "demandingVariables ?c = [2]" "v_dependents (heap ?c 1) = []" "daemonQueue ?c = []"
    "v_outOfDate (heap ?c 1)" "v_formula (heap ?c 1) = Some (Get 0)" "tick (heap ?c 2) = 0"
    "executeDaemons (exec 2) ?c = Return () ?c"
    by (simp_all add: enter_def chain_def eval_simps)
  have dedc: "deduplicated ?c"
    by (simp add: deduplicated_def enter_def chain_def eval_simps)
  from dependents_deduplicated[OF dedc, where n=2 and x=1 and s'="?c" and e="Lit Null" and v=Null and r=scenario1 and err=TypeError and y=0 and w=Null and f=None and c=Null and d=None] c
  obtain tc where "exec (Suc 2) (Get 1) ?c
            = and_then (exec 2 (Get 0) (enter 1 tc)) (\<lambda>v r. Return v (leave 1 v r))"
    "map d_variable (v_dependents (heap tc 1)) = [2]"
    "\<forall>dep\<in>set (v_dependents (heap tc 1)). if d_variable dep = 2 then d_tick dep = 1 else False"
    by (auto cong: if_cong simp del: exec.simps)
  then have 4: "\<exists>t. exec 3 (Get 1) ?c
            = and_then (exec 2 (Get 0) (enter 1 t)) (\<lambda>v r. Return v (leave 1 v r))
          \<and> map d_variable (v_dependents (heap t 1)) = [2]
          \<and> list_all (\<lambda>dep. d_tick dep = 1) (v_dependents (heap t 1))"
    by (auto simp: list_all_iff numeral_nat split: if_splits simp del: exec.simps)
  have 5: "map_option (\<lambda>s. v_dependents (heap s 0))
        (snd (run_script 10 [Get 1, SetValue 0 (Lit (Num 1)), Get 1] scenario1))
       = Some [\<lparr>d_id = 0, d_variable = 1, d_tick = 2\<rparr>]"
    by (simp add: scenario1_def eval_simps)
  from ded ex 1 a(1,2) 2 b(1,2,6) 3 c(4) 4 5 show ?thesis by blast
qed

subsection \<open>A system daemon that throws\<close>

text \<open>
  C10. When a daemon of the taken batch throws, the read that started the flush
  throws the same exception in the state the daemon left, so the daemons after
  it are not run; \<open>executingDaemons\<close> still holds the batch; no later run of any
  callable or statement changes it, and the queue only grows from then on; and
  every flush with \<open>executingDaemons\<close> set does nothing.
\<close>

theorem throwing_daemon_blocks_flush:
  assumes q: "daemonQueue s = before @ d # rest" and idle: "executingDaemons s = None"
    and pre: "daemons_forEach (exec n) before (take_queue s) = Return () s1"
    and thr: "exec n d s1 = Raise e s2"
  shows "exec (Suc n) (Get x) s = Raise e s2
       \<and> executingDaemons s2 = Some (before @ d # rest)
       \<and> (\<forall>m c v err r. exec m c s2 = Return v r \<or> exec m c s2 = Raise err r \<longrightarrow>
             executingDaemons r = Some (before @ d # rest) \<and>
             (\<exists>added. daemonQueue r = daemonQueue s2 @ added))
       \<and> (\<forall>run r. executingDaemons r \<noteq> None \<longrightarrow> executeDaemons run r = Return () r)"
proof -
  from daemons_forEach_raise[OF pre thr]
  have "daemons_forEach (exec n) (daemonQueue s) (take_queue s) = Raise e s2" by (simp add: q)
  with q idle have flush: "executeDaemons (exec n) s = Raise e s2"
    by (simp add: executeDaemons_def take_queue_def)
  then have r: "exec (Suc n) (Get x) s = Raise e s2" by (simp add: get_value_def)
  have "keeps flush_stuck flush_stuck (take_queue s) (daemons_forEach (exec n) before (take_queue s))"
    by (rule keeps_daemons_forEach[OF engine_rule_flush_stuck run_keeps_exec[OF engine_rule_flush_stuck]])
  with pre q have s1: "executingDaemons s1 = Some (before @ d # rest)"
    by (simp add: flush_stuck_def take_queue_def)
  from keeps_execD(2)[OF engine_rule_flush_stuck thr] s1
  have s2: "executingDaemons s2 = Some (before @ d # rest)" by (simp add: flush_stuck_def)
  have later: "executingDaemons r = Some (before @ d # rest) \<and> (\<exists>added. daemonQueue r = daemonQueue s2 @ added)"
    if "exec m c s2 = Return v r \<or> exec m c s2 = Raise v' r" for m c v v' r
    using that keeps_execD[OF engine_rule_flush_stuck, of m c s2] s2
    by (auto simp: flush_stuck_def)
  from r s2 later show ?thesis by (auto simp: executeDaemons_busy)
qed

theorem throwing_daemon_blocks_flush_witness:
  "daemonQueue throwing_daemon = [Emit (Lit (Num 1))] @ Throw (Num 7) # [Emit (Lit (Num 2))]
   \<and> executingDaemons throwing_daemon = None
   \<and> exec 3 (Get 0) throwing_daemon
         = Raise (Thrown (Num 7)) ((take_queue throwing_daemon)\<lparr>emitted := [Num 1]\<rparr>)
   \<and> executingDaemons ((take_queue throwing_daemon)\<lparr>emitted := [Num 1]\<rparr>)
         = Some ([Emit (Lit (Num 1))] @ Throw (Num 7) # [Emit (Lit (Num 2))])
   \<and> fst (run_script 3 [Get 0, AddDaemon (Emit (Lit (Num 3))), Get 0, Get 0] throwing_daemon)
         = [Error (Thrown (Num 7)), Value Null, Value (Num 0), Value (Num 0)]
   \<and> map_option emitted
         (snd (run_script 3 [Get 0, AddDaemon (Emit (Lit (Num 3))), Get 0, Get 0] throwing_daemon))
         = Some [Num 1]"
proof -
  have q: "daemonQueue throwing_daemon = [Emit (Lit (Num 1))] @ Throw (Num 7) # [Emit (Lit (Num 2))]"
    and idle: "executingDaemons throwing_daemon = None"
    by (simp_all add: throwing_daemon_def eval_simps)
  have pre: "daemons_forEach (exec 2) [Emit (Lit (Num 1))] (take_queue throwing_daemon)
               = Return () ((take_queue throwing_daemon)\<lparr>emitted := [Num 1]\<rparr>)"
    by (simp add: throwing_daemon_def take_queue_def eval_simps)
  have thr: "exec 2 (Throw (Num 7)) ((take_queue throwing_daemon)\<lparr>emitted := [Num 1]\<rparr>)
               = Raise (Thrown (Num 7)) ((take_queue throwing_daemon)\<lparr>emitted := [Num 1]\<rparr>)"
    by (simp add: numeral_nat)
  have script: "fst (run_script 3 [Get 0, AddDaemon (Emit (Lit (Num 3))), Get 0, Get 0] throwing_daemon)
         = [Error (Thrown (Num 7)), Value Null, Value (Num 0), Value (Num 0)]"
    "map_option emitted
         (snd (run_script 3 [Get 0, AddDaemon (Emit (Lit (Num 3))), Get 0, Get 0] throwing_daemon))
         = Some [Num 1]"
    by (simp_all add: throwing_daemon_def eval_simps)
  from throwing_daemon_blocks_flush[OF q idle pre thr, of 0] q idle script
  show ?thesis by (simp add: numeral_nat)
qed

subsection \<open>Exceptions and the demand stack\<close>





subsection \<open>A write marks every reached Variable once\<close>

text \<open>
  C5 (as stated, refuted). In Scenario 1, after \<open>y.value\<close> has been read and
  \<open>x.value = 1\<close> has marked \<open>y\<close> (counter 1), the edge from \<open>x\<close> to \<open>y\<close> is current
  and \<open>y\<close> is out of date. The mark pass of \<open>x.value = 2\<close> follows that edge and
  calls \<open>mark\<close> on \<open>y\<close>, but the daemon of \<open>y\<close> is not invoked: the counter is
  still 1. And a daemon can be invoked twice by one write: in the diamond whose
  Variable \<open>b\<close> has the daemon \<open>() => { d.formulaValue = 0 }\<close>, the pass of
  \<open>x.value = 5\<close> marks \<open>d\<close> through \<open>a\<close>, the daemon of \<open>b\<close> clears the flag of \<open>d\<close>,
  and the pass marks \<open>d\<close> again through \<open>b\<close>: the counter of \<open>d\<close> is 2.
\<close>

theorem second_write_skips_stale_dependent_counterexample:
  "fst (run_script 10
          [Get 1, SetValue 0 (Lit (Num 1)), Counter 0, SetValue 0 (Lit (Num 2)), Counter 0] scenario1)
     = [Value (Num 0), Value (Num 1), Value (Num 1), Value (Num 2), Value (Num 1)]
   \<and> map_option (\<lambda>s. (v_outOfDate (heap s 0), v_outOfDate (heap s 1),
                       v_dependents (heap s 0), tick (heap s 1)))
        (snd (run_script 10 [Get 1, SetValue 0 (Lit (Num 1))] scenario1))
     = Some (False, True, [\<lparr>d_id = 0, d_variable = 1, d_tick = 1\<rparr>], 1)
   \<and> fst (run_script 10 [Get 3, Counter 3, SetValue 0 (Lit (Num 5)), Counter 3] meddling_daemon)
     = [Value (Num 0), Value (Num 0), Value (Num 5), Value (Num 2)]"
  by (simp add: scenario1_def meddling_daemon_def eval_simps)

text \<open>
  C5 (amended). Let every outOfDateDaemon be side-effect-only: it calls nothing
  of the module, returns, and changes only the caller's own state. Then, in
  every state whose dependency edges stay within a finite set of Variables
  (diamonds and cycles included), a write returns and changes no tick. The
  Variables that are out of date afterwards are those that were, and those
  reached from the written Variable through current edges along Variables that
  were not out of date, the written Variable excepted: a dependent that is out
  of date already is not marked, and the pass does not continue through it.
  \<open>order\<close> lists the Variables that went out of date, each once, and the
  caller's state afterwards is what their daemons, each run once, one after the
  other in that order, make of it: the daemon of a Variable that goes out of
  date is invoked exactly once, and no other daemon is invoked.
\<close>

theorem write_marks_reached_once:
  assumes se: "side_effect_only run eff s"
    and V: "finite V" and cl: "closed_in V s" and x: "x \<in> V"
  shows "\<exists>N r order. (\<forall>n\<ge>N. set_value n run x w s = Return () r)
      \<and> (\<forall>y. tick (heap r y) = tick (heap s y))
      \<and> (\<forall>y. v_outOfDate (heap r y) \<longleftrightarrow> y \<noteq> x \<and> (v_outOfDate (heap s y) \<or> reach s x y))
      \<and> distinct order \<and> (\<forall>y. y \<in> set order \<longleftrightarrow> y \<noteq> x \<and> reach s x y)
      \<and> caller r = foldl (\<lambda>c y. fire eff s y c) (caller s) order"
proof -
  let ?s0 = "upd x (\<lambda>v. v\<lparr>v_value := w, v_formula := None, v_outOfDateDaemon := None\<rparr>) s"
  have same: "\<forall>y. v_outOfDate (heap ?s0 y) = v_outOfDate (heap s y) \<and>
               v_dependents (heap ?s0 y) = v_dependents (heap s y) \<and>
               tick (heap ?s0 y) = tick (heap s y)" by simp
  have same': "\<forall>y. v_outOfDate (heap s y) = v_outOfDate (heap ?s0 y) \<and>
               v_dependents (heap s y) = v_dependents (heap ?s0 y) \<and>
               tick (heap s y) = tick (heap ?s0 y)" by simp
  have re: "reach ?s0 x y \<longleftrightarrow> reach s x y" for y
    using reach_same[OF same, of x y] reach_same[OF same', of x y] by blast
  have se0: "side_effect_only run eff ?s0"
    by (rule side_effect_only_fewer[OF _ se]) simp
  from cl same have cl0: "closed_in V ?s0" by (simp add: closed_in_def)
  from mark_total[OF se0 V cl0 x]
  obtain N r1 order0 where N: "\<forall>n\<ge>N. mark n run x [] ?s0 = Return [] r1"
    and mp: "mark_pass ?s0 r1" and fo: "followed ?s0 r1" and st: "v_outOfDate (heap r1 x)"
    and fi: "fired eff order0 ?s0 r1" and so: "\<forall>y\<in>set order0. reach ?s0 x y"
    by blast
  note exact = pass_exact[OF mp fo st fi so]
  let ?r = "upd x (\<lambda>v. v\<lparr>v_outOfDate := False\<rparr>) r1"
  let ?order = "filter (\<lambda>y. y \<noteq> x) order0"
  from N have 1: "\<forall>n\<ge>N. set_value n run x w s = Return () ?r"
    by (simp add: set_value_def)
  from mp have 2: "\<forall>y. tick (heap ?r y) = tick (heap s y)"
    by (simp add: mark_pass_def)
  have 3: "v_outOfDate (heap ?r y) \<longleftrightarrow> y \<noteq> x \<and> (v_outOfDate (heap s y) \<or> reach s x y)" for y
    using exact(1)[of y] re[of y] by (cases "y = x") simp_all
  from fi have 4: "distinct ?order" by (simp add: fired_def)
  have 5: "y \<in> set ?order \<longleftrightarrow> y \<noteq> x \<and> reach s x y" for y
    using exact(2)[of y] re[of y] by auto
  have skip: "fire eff ?s0 x = (\<lambda>c. c)" "\<forall>y. y \<noteq> x \<longrightarrow> fire eff ?s0 y = fire eff s y"
    by (simp_all add: fire_def fun_eq_iff)
  from fi have "caller r1 = foldl (\<lambda>c y. fire eff ?s0 y c) (caller ?s0) order0"
    by (simp add: fired_def)
  with foldl_fire_skip[of "fire eff ?s0" x "fire eff s", OF skip]
  have 6: "caller ?r = foldl (\<lambda>c y. fire eff s y c) (caller s) ?order" by simp
  from 1 2 3 4 5 6 show ?thesis by blast
qed

theorem write_marks_reached_once_witness:
  "side_effect_only (exec 1) (daemon_effect diamond_read) diamond_read
   \<and> closed_in {0, 1, 2, 3} diamond_read \<and> reach diamond_read 0 3
   \<and> (\<exists>N r. (\<forall>n\<ge>N. set_value n (exec 1) 0 (Num 5) diamond_read = Return () r)
         \<and> tick (heap r 3) = 1 \<and> globals r 3 = globals diamond_read 3 + 1
         \<and> v_outOfDate (heap r 3) \<and> \<not> v_outOfDate (heap r 0))
   \<and> side_effect_only (exec 1) (daemon_effect scenario1_marked) scenario1_marked
   \<and> closed_in {0, 1} scenario1_marked \<and> v_outOfDate (heap scenario1_marked 1)
   \<and> (\<exists>N r. (\<forall>n\<ge>N. set_value n (exec 1) 0 (Num 2) scenario1_marked = Return () r)
         \<and> caller r = caller scenario1_marked \<and> v_outOfDate (heap r 1))
   \<and> fst (run_script 10
            [Get 3, SetValue 0 (Lit (Num 5)), Counter 1, Counter 2, Counter 3, Get 3, Counter 3]
            diamond)
       = [Value (Num 0), Value (Num 5), Value (Num 1), Value (Num 1), Value (Num 1),
          Value (Num 10), Value (Num 1)]"
proof -
  note se = inert_side_effect_only[OF diamond_read_inert]
  have V: "finite {0::nat, 1, 2, 3}" and x: "(0::nat) \<in> {0, 1, 2, 3}" by simp_all
  from write_marks_reached_once[OF se V diamond_read_closed x, of "Num 5"]
  obtain N r order where r: "\<forall>n\<ge>N. set_value n (exec 1) 0 (Num 5) diamond_read = Return () r"
    "\<forall>y. tick (heap r y) = tick (heap diamond_read y)"
    "\<forall>y. v_outOfDate (heap r y) \<longleftrightarrow> y \<noteq> 0 \<and> (v_outOfDate (heap diamond_read y) \<or> reach diamond_read 0 y)"
    "distinct order" "\<forall>y. y \<in> set order \<longleftrightarrow> y \<noteq> 0 \<and> reach diamond_read 0 y"
    "caller r = foldl (\<lambda>c y. fire (daemon_effect diamond_read) diamond_read y c) (caller diamond_read) order"
    by blast
  from r(3) diamond_read_reach have st: "v_outOfDate (heap r 3)" "\<not> v_outOfDate (heap r 0)" by simp_all
  from r(5) diamond_read_reach have "3 \<in> set order" by simp
  with foldl_own_counters[OF r(4) diamond_read_own_counters, of "caller diamond_read" 3]
  have "fst (foldl (\<lambda>c y. fire (daemon_effect diamond_read) diamond_read y c) (caller diamond_read) order) 3
          = fst (caller diamond_read) 3 + 1"
    by (simp add: diamond_read_cells)
  then have "fst (caller r) 3 = fst (caller diamond_read) 3 + 1" by (simp only: r(6))
  then have g: "globals r 3 = globals diamond_read 3 + 1" by (simp add: caller_def)
  from r(2) have t: "tick (heap r 3) = 1" by (simp add: diamond_read_cells)
  note se' = inert_side_effect_only[OF scenario1_marked_inert]
  have V': "finite {0::nat, 1}" and x': "(0::nat) \<in> {0, 1}" by simp_all
  from write_marks_reached_once[OF se' V' scenario1_marked_closed x', of "Num 2"]
  obtain N' r' order' where r': "\<forall>n\<ge>N'. set_value n (exec 1) 0 (Num 2) scenario1_marked = Return () r'"
    "\<forall>y. v_outOfDate (heap r' y) \<longleftrightarrow> y \<noteq> 0 \<and> (v_outOfDate (heap scenario1_marked y) \<or> reach scenario1_marked 0 y)"
    "\<forall>y. y \<in> set order' \<longleftrightarrow> y \<noteq> 0 \<and> reach scenario1_marked 0 y"
    "caller r' = foldl (\<lambda>c y. fire (daemon_effect scenario1_marked) scenario1_marked y c)
                   (caller scenario1_marked) order'"
    by blast
  have "y \<notin> set order'" for y
  proof
    assume "y \<in> set order'"
    with r'(3) have y: "y \<noteq> 0" "reach scenario1_marked 0 y" by simp_all
    from reach_closed[OF scenario1_marked_closed x' y(2)] y(1) have "y = 1" by simp
    with reach_fresh[OF y(2)] show False by (simp add: scenario1_marked_cells)
  qed
  then have "order' = []" by (cases order') auto
  with r'(4) have c': "caller r' = caller scenario1_marked" by simp
  from r'(2) have st': "v_outOfDate (heap r' 1)" by (simp add: scenario1_marked_cells)
  have old: "v_outOfDate (heap scenario1_marked 1)" by (simp add: scenario1_marked_cells)
  have script: "fst (run_script 10
            [Get 3, SetValue 0 (Lit (Num 5)), Counter 1, Counter 2, Counter 3, Get 3, Counter 3]
            diamond)
       = [Value (Num 0), Value (Num 5), Value (Num 1), Value (Num 1), Value (Num 1),
          Value (Num 10), Value (Num 1)]"
    by (simp add: diamond_def eval_simps)
  from se diamond_read_closed diamond_read_reach r(1) st g t se' scenario1_marked_closed old
    r'(1) c' st' script
  show ?thesis by blast
qed

subsection \<open>Replacing a formula\<close>

text \<open>
  C9 (as stated, refuted). In the chain \<open>z\<close>, \<open>x\<close>, \<open>y\<close>: after \<open>y.value\<close>,
  \<open>z.value = 1\<close> and \<open>y.formulaValue = 5\<close> the Variable \<open>x\<close> is out of date, \<open>y\<close>
  is not, and the edge from \<open>x\<close> to \<open>y\<close> is current. \<open>x.formula = () => 7\<close> then
  finds \<open>x\<close> out of date, so its mark pass does nothing: the daemon of \<open>y\<close> is
  not invoked (the counter stays 1) and \<open>y.value\<close> still reads 5.
\<close>

theorem formula_setter_skips_when_stale_counterexample:
  "fst (run_script 10
          [Get 2, SetValue 0 (Lit (Num 1)), Counter 2, SetFormulaValue 2 (Lit (Num 5)),
           SetFormula 1 (Lit (Num 7)), Counter 2, Get 2, Get 1] chain)
     = [Value (Num 0), Value (Num 1), Value (Num 1), Value (Num 5),
        Value Null, Value (Num 1), Value (Num 5), Value (Num 7)]
   \<and> map_option (\<lambda>s. (v_outOfDate (heap s 1), v_outOfDate (heap s 2),
                       v_dependents (heap s 1), tick (heap s 2)))
        (snd (run_script 10
                [Get 2, SetValue 0 (Lit (Num 1)), Counter 2, SetFormulaValue 2 (Lit (Num 5))] chain))
     = Some (True, False, [\<lparr>d_id = 0, d_variable = 2, d_tick = 1\<rparr>], 1)"
  by (simp add: chain_def eval_simps)

text \<open>
  C9 (amended). When the Variable is out of date already, the formula setter
  replaces the callable and does nothing else, whatever the daemons are: no
  Variable is marked and no daemon is invoked. Otherwise, let every
  outOfDateDaemon be side-effect-only: it calls nothing of the module, returns,
  and changes only the caller's own state. Then, in every state whose
  dependency edges stay within a finite set of Variables, the formula setter
  returns, replaces the callable, keeps every daemon, context, stored value and
  tick (nothing is computed), and leaves the Variable out of date. The
  Variables that are out of date afterwards are those that were, and those
  reached from the Variable through current edges along Variables that were not
  out of date, the Variable itself included; \<open>order\<close> lists the Variables that
  went out of date, each once, and the caller's state afterwards is what their
  daemons, each run once in that order, make of it.
\<close>

theorem formula_setter_marks_when_fresh:
  "(v_outOfDate (heap s x) \<longrightarrow>
      set_formula (Suc n) run' x f s = Return () (upd x (\<lambda>v. v\<lparr>v_formula := Some f\<rparr>) s))
   \<and> (side_effect_only run eff s \<and> finite V \<and> closed_in V s \<and> x \<in> V \<longrightarrow>
       (\<exists>N r order. (\<forall>n\<ge>N. set_formula n run x f s = Return () r)
         \<and> v_formula (heap r x) = Some f
         \<and> (\<forall>y. v_outOfDateDaemon (heap r y) = v_outOfDateDaemon (heap s y) \<and>
                v_thisFormula (heap r y) = v_thisFormula (heap s y) \<and>
                v_value (heap r y) = v_value (heap s y) \<and>
                tick (heap r y) = tick (heap s y))
         \<and> v_outOfDate (heap r x)
         \<and> (\<forall>y. v_outOfDate (heap r y) \<longleftrightarrow> v_outOfDate (heap s y) \<or> reach s x y)
         \<and> distinct order \<and> (\<forall>y. y \<in> set order \<longleftrightarrow> reach s x y)
         \<and> caller r = foldl (\<lambda>c y. fire eff s y c) (caller s) order))"
proof -
  let ?s0 = "upd x (\<lambda>v. v\<lparr>v_formula := Some f\<rparr>) s"
  have stale: "set_formula (Suc n) run' x f s = Return () ?s0" if "v_outOfDate (heap s x)"
    using that by (simp add: set_formula_def)
  have fresh: "\<exists>N r order. (\<forall>n\<ge>N. set_formula n run x f s = Return () r)
         \<and> v_formula (heap r x) = Some f
         \<and> (\<forall>y. v_outOfDateDaemon (heap r y) = v_outOfDateDaemon (heap s y) \<and>
                v_thisFormula (heap r y) = v_thisFormula (heap s y) \<and>
                v_value (heap r y) = v_value (heap s y) \<and>
                tick (heap r y) = tick (heap s y))
         \<and> v_outOfDate (heap r x)
         \<and> (\<forall>y. v_outOfDate (heap r y) \<longleftrightarrow> v_outOfDate (heap s y) \<or> reach s x y)
         \<and> distinct order \<and> (\<forall>y. y \<in> set order \<longleftrightarrow> reach s x y)
         \<and> caller r = foldl (\<lambda>c y. fire eff s y c) (caller s) order"
    if h: "side_effect_only run eff s \<and> finite V \<and> closed_in V s \<and> x \<in> V"
  proof -
    from h have se: "side_effect_only run eff s" and V: "finite V" and cl: "closed_in V s"
      and x: "x \<in> V" by simp_all
    have same: "\<forall>y. v_outOfDate (heap ?s0 y) = v_outOfDate (heap s y) \<and>
               v_dependents (heap ?s0 y) = v_dependents (heap s y) \<and>
               tick (heap ?s0 y) = tick (heap s y)" by simp
    have same': "\<forall>y. v_outOfDate (heap s y) = v_outOfDate (heap ?s0 y) \<and>
               v_dependents (heap s y) = v_dependents (heap ?s0 y) \<and>
               tick (heap s y) = tick (heap ?s0 y)" by simp
    have re: "reach ?s0 x y \<longleftrightarrow> reach s x y" for y
      using reach_same[OF same, of x y] reach_same[OF same', of x y] by blast
    have se0: "side_effect_only run eff ?s0"
      by (rule side_effect_only_fewer[OF _ se]) simp
    from cl same have cl0: "closed_in V ?s0" by (simp add: closed_in_def)
    from mark_total[OF se0 V cl0 x]
    obtain N r order where N: "\<forall>n\<ge>N. mark n run x [] ?s0 = Return [] r"
      and mp: "mark_pass ?s0 r" and fo: "followed ?s0 r" and st: "v_outOfDate (heap r x)"
      and fi: "fired eff order ?s0 r" and so: "\<forall>y\<in>set order. reach ?s0 x y"
      by blast
    note exact = pass_exact[OF mp fo st fi so]
    from N have 1: "\<forall>n\<ge>N. set_formula n run x f s = Return () r"
      by (simp add: set_formula_def)
    have 2: "v_formula (heap r x) = Some f" using mark_passD(2)[OF mp, of x] by simp
    have 3: "\<forall>y. v_outOfDateDaemon (heap r y) = v_outOfDateDaemon (heap s y) \<and>
                v_thisFormula (heap r y) = v_thisFormula (heap s y) \<and>
                v_value (heap r y) = v_value (heap s y) \<and>
                tick (heap r y) = tick (heap s y)"
      using mark_passD(1,3,4,5)[OF mp] by simp
    have 4: "v_outOfDate (heap r y) \<longleftrightarrow> v_outOfDate (heap s y) \<or> reach s x y" for y
      using exact(1)[of y] re[of y] by simp
    from fi have 5: "distinct order" by (simp add: fired_def)
    have 6: "y \<in> set order \<longleftrightarrow> reach s x y" for y
      using exact(2)[of y] re[of y] by simp
    have "(\<lambda>c y. fire eff ?s0 y c) = (\<lambda>c y. fire eff s y c)"
      by (rule fire_same) simp
    with fi have 7: "caller r = foldl (\<lambda>c y. fire eff s y c) (caller s) order"
      by (simp add: fired_def)
    from 1 2 3 st 4 5 6 7 show ?thesis by blast
  qed
  from stale fresh show ?thesis by blast
qed

theorem formula_setter_marks_when_fresh_witness:
  "v_outOfDate (heap chain_stale 1) \<and> \<not> v_outOfDate (heap chain_stale 2)
   \<and> v_dependents (heap chain_stale 1) = [\<lparr>d_id = 0, d_variable = 2, d_tick = 1\<rparr>]
   \<and> \<not> dep_outOfDate chain_stale \<lparr>d_id = 0, d_variable = 2, d_tick = 1\<rparr>
   \<and> set_formula 1 (exec 1) 1 (Lit (Num 7)) chain_stale
        = Return () (upd 1 (\<lambda>v. v\<lparr>v_formula := Some (Lit (Num 7))\<rparr>) chain_stale)
   \<and> side_effect_only (exec 1) (daemon_effect diamond_read) diamond_read
   \<and> closed_in {0, 1, 2, 3} diamond_read
   \<and> (\<exists>N r. (\<forall>n\<ge>N. set_formula n (exec 1) 0 (Lit (Num 4)) diamond_read = Return () r)
         \<and> v_formula (heap r 0) = Some (Lit (Num 4)) \<and> v_value (heap r 0) = Num 0
         \<and> v_outOfDate (heap r 0) \<and> v_outOfDate (heap r 3) \<and> tick (heap r 3) = 1
         \<and> globals r 3 = globals diamond_read 3 + 1)"
proof -
  note cs = chain_stale_cells
  from formula_setter_marks_when_fresh[where s=chain_stale and x=1 and n=0 and run'="exec 1"
      and f="Lit (Num 7)" and run="exec 1" and eff="daemon_effect chain_stale" and V="{}"] cs(1)
  have 1: "set_formula 1 (exec 1) 1 (Lit (Num 7)) chain_stale
        = Return () (upd 1 (\<lambda>v. v\<lparr>v_formula := Some (Lit (Num 7))\<rparr>) chain_stale)"
    by simp
  have live: "\<not> dep_outOfDate chain_stale \<lparr>d_id = 0, d_variable = 2, d_tick = 1\<rparr>"
    by (simp add: dep_outOfDate_def cs)
  note se = inert_side_effect_only[OF diamond_read_inert]
  have V: "finite {0::nat, 1, 2, 3}" and x: "(0::nat) \<in> {0, 1, 2, 3}" by simp_all
  from formula_setter_marks_when_fresh[where s=diamond_read and x=0 and n=0 and run'="exec 1"
      and f="Lit (Num 4)" and run="exec 1" and eff="daemon_effect diamond_read" and V="{0, 1, 2, 3}"]
    se V diamond_read_closed x
  obtain N r order where r: "\<forall>n\<ge>N. set_formula n (exec 1) 0 (Lit (Num 4)) diamond_read = Return () r"
    "v_formula (heap r 0) = Some (Lit (Num 4))"
    "\<forall>y. v_outOfDateDaemon (heap r y) = v_outOfDateDaemon (heap diamond_read y) \<and>
                v_thisFormula (heap r y) = v_thisFormula (heap diamond_read y) \<and>
                v_value (heap r y) = v_value (heap diamond_read y) \<and>
                tick (heap r y) = tick (heap diamond_read y)"
    "v_outOfDate (heap r 0)"
    "\<forall>y. v_outOfDate (heap r y) \<longleftrightarrow> v_outOfDate (heap diamond_read y) \<or> reach diamond_read 0 y"
    "distinct order" "\<forall>y. y \<in> set order \<longleftrightarrow> reach diamond_read 0 y"
    "caller r = foldl (\<lambda>c y. fire (daemon_effect diamond_read) diamond_read y c) (caller diamond_read) order"
    by blast
  from r(5) diamond_read_reach have st: "v_outOfDate (heap r 3)" by blast
  from r(7) diamond_read_reach have "3 \<in> set order" by simp
  with foldl_own_counters[OF r(6) diamond_read_own_counters, of "caller diamond_read" 3]
  have "fst (foldl (\<lambda>c y. fire (daemon_effect diamond_read) diamond_read y c) (caller diamond_read) order) 3
          = fst (caller diamond_read) 3 + 1"
    by (simp add: diamond_read_cells)
  then have "fst (caller r) 3 = fst (caller diamond_read) 3 + 1" by (simp only: r(8))
  then have g: "globals r 3 = globals diamond_read 3 + 1" by (simp add: caller_def)
  from r(3) have t: "tick (heap r 3) = 1" by (simp add: diamond_read_cells)
  from r(3) have v: "v_value (heap r 0) = Num 0" by (simp add: diamond_simps)
  from cs(1,2,3) live 1 se diamond_read_closed r(1,2,4) st g t v
  show ?thesis by (simp del: exec.simps) blast
qed

subsection \<open>The tick\<close>

text \<open>
  C7 (as stated, refuted). A write changes a tick when a daemon it invokes reads
  a Variable. After \<open>y.value\<close>, the Variable \<open>w\<close> is out of date with tick 0 and
  the edge from \<open>x\<close> to \<open>y\<close> is current. The mark pass of \<open>x.value = 5\<close> invokes
  the daemon of \<open>y\<close>, which reads \<open>w.value\<close>: \<open>w\<close> is recomputed during the write,
  which returns, and the tick of \<open>w\<close> is 1.
\<close>

theorem daemon_read_recomputes_counterexample:
  "map_option (\<lambda>s. tick (heap s 2)) (snd (run_script 10 [Get 1] reading_daemon)) = Some 0
   \<and> fst (run_script 10 [Get 1, SetValue 0 (Lit (Num 5))] reading_daemon)
       = [Value (Num 0), Value (Num 5)]
   \<and> map_option (\<lambda>s. tick (heap s 2))
       (snd (run_script 10 [Get 1, SetValue 0 (Lit (Num 5))] reading_daemon)) = Some 1"
  by (simp add: reading_daemon_def eval_simps)

text \<open>
  C7 (amended). No run of any callable or statement, returning or throwing, and
  no sequence of statements decreases the tick of any Variable. A recomputation
  (\<open>computeFormula\<close> on a Variable that is out of date) increments the tick of
  that Variable by exactly one over its value when the formula returned, and
  changes no other tick; on a Variable that is not out of date it changes
  nothing. \<open>peek\<close> changes nothing at all. When every outOfDateDaemon is
  side-effect-only (it calls nothing of the module, returns, and changes only
  the caller's own state), the write setter, the formulaValue setter, the
  formula setter and a mark pass leave every tick as it was.
\<close>

theorem tick_changes_only_by_recomputation:
  "(exec n e s = Return v r \<or> exec n e s = Raise err r \<longrightarrow> tick (heap s y) \<le> tick (heap r y))
   \<and> (snd (run_script n cs s) = Some r \<longrightarrow> tick (heap s y) \<le> tick (heap r y))
   \<and> (v_outOfDate (heap s x) \<and> v_formula (heap s x) = Some f \<and> run f (enter x s) = Return v r \<longrightarrow>
        computeFormula run x s = Return () (leave x v r) \<and>
        tick (heap (leave x v r) y) = (if y = x then tick (heap r x) + 1 else tick (heap r y)))
   \<and> (\<not> v_outOfDate (heap s x) \<longrightarrow> computeFormula run x s = Return () s)
   \<and> (side_effect_only run eff s \<and>
        (set_value n run x w s = Return () r \<or> set_formulaValue n run x w s = Return () r \<or>
         set_formula n run x f s = Return () r \<or> mark n run x [] s = Return m r) \<longrightarrow>
        tick (heap r y) = tick (heap s y))
   \<and> exec (Suc n) (Peek x) s = Return (peek x s) s"
proof -
  have 1: "exec n e s = Return v r \<or> exec n e s = Raise err r \<longrightarrow> tick (heap s y) \<le> tick (heap r y)"
    using keeps_execD[OF engine_rule_ticks, of n e s] by (auto simp: ticks_le_def)
  have 2: "snd (run_script n cs s) = Some r \<longrightarrow> tick (heap s y) \<le> tick (heap r y)"
    using run_script_ticks by blast
  have 3: "computeFormula run x s = Return () (leave x v r) \<and>
        tick (heap (leave x v r) y) = (if y = x then tick (heap r x) + 1 else tick (heap r y))"
    if "v_outOfDate (heap s x) \<and> v_formula (heap s x) = Some f \<and> run f (enter x s) = Return v r"
    using that by (simp add: computeFormula_enter_leave leave_def Let_def)
  have 4: "\<not> v_outOfDate (heap s x) \<longrightarrow> computeFormula run x s = Return () s"
    by (simp add: computeFormula_enter_leave)
  have 5: "tick (heap r y) = tick (heap s y)"
    if h: "side_effect_only run eff s \<and>
        (set_value n run x w s = Return () r \<or> set_formulaValue n run x w s = Return () r \<or>
         set_formula n run x f s = Return () r \<or> mark n run x [] s = Return m r)"
  proof -
    from h have se: "side_effect_only run eff s" by simp
    from h consider (a) "set_value n run x w s = Return () r"
      | (b) "set_formulaValue n run x w s = Return () r"
      | (c) "set_formula n run x f s = Return () r"
      | (d) "mark n run x [] s = Return m r" by blast
    then show ?thesis
    proof cases
      case a
      let ?s0 = "upd x (\<lambda>v. v\<lparr>v_value := w, v_formula := None, v_outOfDateDaemon := None\<rparr>) s"
      have "side_effect_only run eff ?s0" by (rule side_effect_only_fewer[OF _ se]) simp
      from setter_ticks[OF this a[unfolded set_value_def]] show ?thesis by simp
    next
      case b
      let ?s0 = "upd x (\<lambda>v. v\<lparr>v_value := w\<rparr>) s"
      have "side_effect_only run eff ?s0" by (rule side_effect_only_fewer[OF _ se]) simp
      from setter_ticks[OF this b[unfolded set_formulaValue_def]] show ?thesis by simp
    next
      case c
      let ?s0 = "upd x (\<lambda>v. v\<lparr>v_formula := Some f\<rparr>) s"
      have "side_effect_only run eff ?s0" by (rule side_effect_only_fewer[OF _ se]) simp
      from setter_ticks[OF this c[unfolded set_formula_def]] show ?thesis by simp
    next
      case d
      from mark_ok_all[of run eff n] have "mark_ok run eff n" by simp
      from mark_okD[OF this se, of "[]" x] d obtain "mark_pass s r" by auto
      from mark_passD(5)[OF this] show ?thesis .
    qed
  qed
  have 6: "exec (Suc n) (Peek x) s = Return (peek x s) s" by simp
  from 1 2 3 4 5 6 show ?thesis by blast
qed

theorem tick_changes_only_by_recomputation_witness:
  "(\<exists>v r. exec 10 (Get 3) diamond = Return v r \<and> tick (heap diamond 3) \<le> tick (heap r 3))
   \<and> computeFormula (exec 1) 0 (new_Variable 0 Null (Some (Lit (Num 3))) Null None new_ConstraintSystem)
        = Return () (leave 0 (Num 3)
            (enter 0 (new_Variable 0 Null (Some (Lit (Num 3))) Null None new_ConstraintSystem)))
   \<and> tick (heap (leave 0 (Num 3)
            (enter 0 (new_Variable 0 Null (Some (Lit (Num 3))) Null None new_ConstraintSystem))) 0) = 1
   \<and> side_effect_only (exec 1) (daemon_effect diamond_read) diamond_read
   \<and> (\<exists>r. set_value 9 (exec 1) 0 (Num 5) diamond_read = Return () r
          \<and> tick (heap r 3) = tick (heap diamond_read 3))"
proof -
  let ?c = "new_Variable 0 Null (Some (Lit (Num 3))) Null None new_ConstraintSystem"
  obtain v r where a: "exec 10 (Get 3) diamond = Return v r"
    by (simp add: diamond_def eval_simps)
  from tick_changes_only_by_recomputation[where n=10 and e="Get 3" and s=diamond and v=v and r=r
      and y=3] a
  have 1: "tick (heap diamond 3) \<le> tick (heap r 3)" by simp
  have b: "v_outOfDate (heap ?c 0)" "v_formula (heap ?c 0) = Some (Lit (Num 3))"
    "exec 1 (Lit (Num 3)) (enter 0 ?c) = Return (Num 3) (enter 0 ?c)"
    by (simp_all add: new_Variable_def)
  from tick_changes_only_by_recomputation[where s="?c" and x=0 and f="Lit (Num 3)" and run="exec 1"
      and v="Num 3" and r="enter 0 ?c" and y=0] b
  have 2: "computeFormula (exec 1) 0 ?c = Return () (leave 0 (Num 3) (enter 0 ?c))"
    "tick (heap (leave 0 (Num 3) (enter 0 ?c)) 0) = 1"
    by (simp_all add: enter_def new_Variable_def)
  note se = inert_side_effect_only[OF diamond_read_inert]
  obtain r' where d: "set_value 9 (exec 1) 0 (Num 5) diamond_read = Return () r'"
    by (simp add: diamond_simps)
  from tick_changes_only_by_recomputation[where s=diamond_read and run="exec 1" and n=9 and x=0
      and w="Num 5" and r=r' and y=3 and eff="daemon_effect diamond_read"] se d
  have 3: "tick (heap r' 3) = tick (heap diamond_read 3)" by simp
  from a 1 2 se d 3 show ?thesis by blast
qed

subsection \<open>The flush of the system daemons\<close>

lemma simple_same:
  "heap s' = heap s \<Longrightarrow> demandingVariables s' = demandingVariables s \<Longrightarrow> simple s' d = simple s d"
  by (induction s d rule: simple.induct) simp_all

lemma simple_exec:
  "simple s d \<Longrightarrow> executingDaemons s \<noteq> None \<Longrightarrow> cost d \<le> n \<Longrightarrow>
     \<exists>v. exec n d s =
           Return v (s\<lparr>daemonQueue := daemonQueue s @ regs d, emitted := emitted s @ outs d\<rparr>)"
proof (induction d arbitrary: s n)
  case (Get x)
  then obtain k where "n = Suc k" by (cases n) auto
  with Get show ?case by (simp add: get_value_fresh updateDependencies_top)
next
  case (AddDaemon d)
  then obtain k where "n = Suc k" by (cases n) auto
  then show ?case by (simp add: addDaemon_def)
next
  case (Emit e)
  then obtain v where e: "e = Lit v" by (cases e) simp_all
  with Emit.prems obtain k where "n = Suc (Suc k)" by (cases n; cases "n - 1") auto
  with e show ?case by simp
next
  case (Seq a b)
  then obtain k where n: "n = Suc k" by (cases n) auto
  with Seq.prems have ca: "cost a \<le> k" and cb: "cost b \<le> k" by simp_all
  from Seq.prems have sa: "simple s a" and sb: "simple s b" by simp_all
  from Seq.IH(1)[OF sa Seq.prems(2) ca]
  obtain v where a: "exec k a s =
      Return v (s\<lparr>daemonQueue := daemonQueue s @ regs a, emitted := emitted s @ outs a\<rparr>)" by blast
  let ?s1 = "s\<lparr>daemonQueue := daemonQueue s @ regs a, emitted := emitted s @ outs a\<rparr>"
  have sb1: "simple ?s1 b" using sb simple_same[of ?s1 s b] by simp
  have ex1: "executingDaemons ?s1 \<noteq> None" using Seq.prems(2) by simp
  from Seq.IH(2)[OF sb1 ex1 cb]
  obtain v' where "exec k b ?s1 =
      Return v' (?s1\<lparr>daemonQueue := daemonQueue ?s1 @ regs b, emitted := emitted ?s1 @ outs b\<rparr>)"
    by blast
  with a n show ?case by simp
qed simp_all

lemma flush_simple:
  "\<forall>d\<in>set ds. simple s d \<and> cost d \<le> n \<Longrightarrow> executingDaemons s \<noteq> None \<Longrightarrow>
     daemons_forEach (exec n) ds s =
       Return () (s\<lparr>daemonQueue := daemonQueue s @ concat (map regs ds),
                     emitted := emitted s @ concat (map outs ds)\<rparr>)"
proof (induction ds arbitrary: s)
  case Nil
  then show ?case by simp
next
  case (Cons d ds)
  let ?s1 = "s\<lparr>daemonQueue := daemonQueue s @ regs d, emitted := emitted s @ outs d\<rparr>"
  from Cons.prems simple_exec[of s d n]
  obtain v where d: "exec n d s = Return v ?s1" by auto
  have "\<forall>d\<in>set ds. simple ?s1 d \<and> cost d \<le> n"
    using Cons.prems(1) simple_same[of ?s1 s] by simp
  moreover have "executingDaemons ?s1 \<noteq> None" using Cons.prems(2) by simp
  ultimately have "daemons_forEach (exec n) ds ?s1 =
       Return () (?s1\<lparr>daemonQueue := daemonQueue ?s1 @ concat (map regs ds),
                     emitted := emitted ?s1 @ concat (map outs ds)\<rparr>)"
    by (rule Cons.IH)
  with d show ?case by simp
qed

lemma executeDaemons_simple:
  assumes idle: "executingDaemons s = None"
    and all: "\<forall>d\<in>set (daemonQueue s). simple s d \<and> cost d \<le> n"
  shows "executeDaemons (exec n) s = Return () (flushed (daemonQueue s) s)"
proof (cases "daemonQueue s = []")
  case True
  with idle show ?thesis by (simp add: executeDaemons_def flushed_def)
next
  case False
  let ?t = "take_queue s"
  have "\<forall>d\<in>set (daemonQueue s). simple ?t d \<and> cost d \<le> n"
    using all simple_same[of ?t s] by (simp add: take_queue_def)
  moreover have "executingDaemons ?t \<noteq> None" by (simp add: take_queue_def)
  ultimately have "daemons_forEach (exec n) (daemonQueue s) ?t =
       Return () (?t\<lparr>daemonQueue := daemonQueue ?t @ concat (map regs (daemonQueue s)),
                     emitted := emitted ?t @ concat (map outs (daemonQueue s))\<rparr>)"
    by (rule flush_simple)
  with False idle show ?thesis
    by (simp add: executeDaemons_def take_queue_def flushed_def)
qed

lemma regs_simple: "simple s d \<Longrightarrow> d' \<in> set (regs d) \<Longrightarrow> simple s d' \<and> cost d' \<le> cost d"
proof (induction s d arbitrary: d' rule: simple.induct)
  case (2 s d)
  from "2.prems" show ?case by simp
next
  case (4 s a b)
  from "4.prems"(1) have sa: "simple s a" and sb: "simple s b" by simp_all
  from "4.prems"(2) consider "d' \<in> set (regs a)" | "d' \<in> set (regs b)" by auto
  then show ?case
  proof cases
    case 1
    from "4.IH"(1)[OF sa 1] show ?thesis by (simp add: le_SucI le_max_iff_disj)
  next
    case 2
    from "4.IH"(2)[OF sb 2] show ?thesis by (simp add: le_SucI le_max_iff_disj)
  qed
qed simp_all

lemma daemons_forEach_append:
  "daemons_forEach run (as @ bs) s =
     and_then (daemons_forEach run as s) (\<lambda>_ s1. daemons_forEach run bs s1)"
proof (induction as arbitrary: s)
  case Nil
  show ?case by simp
next
  case (Cons a as)
  then show ?case by (cases "run a s") simp_all
qed

lemma daemons_forEach_Cons:
  "daemons_forEach run (d # ds) s = Return () r \<longleftrightarrow>
     (\<exists>v s1. run d s = Return v s1 \<and> daemons_forEach run ds s1 = Return () r)"
  by (cases "run d s") simp_all

lemma daemons_forEach_stuck:
  assumes "daemons_forEach (exec n) ds s = Return () r" and "executingDaemons s \<noteq> None"
  shows "executingDaemons r = executingDaemons s \<and> (\<exists>added. daemonQueue r = daemonQueue s @ added)"
proof -
  have "keeps flush_stuck flush_stuck s (daemons_forEach (exec n) ds s)"
    by (rule keeps_daemons_forEach[OF engine_rule_flush_stuck run_keeps_exec[OF engine_rule_flush_stuck]])
  with assms show ?thesis by (simp add: flush_stuck_def)
qed

text \<open>
  C6 (as stated, refuted). Three daemons are registered; the second throws. The
  first read runs the first daemon and throws; the third daemon, and the one
  registered after the failed read, are run by no later read: the caller's
  array holds the value of the first daemon only, and the queue still holds the
  daemon registered later.
\<close>

theorem registered_daemon_never_runs_counterexample:
  "daemonQueue throwing_daemon = [Emit (Lit (Num 1)), Throw (Num 7), Emit (Lit (Num 2))]
   \<and> fst (run_script 3 [Get 0, AddDaemon (Emit (Lit (Num 3))), Get 0, Get 0] throwing_daemon)
       = [Error (Thrown (Num 7)), Value Null, Value (Num 0), Value (Num 0)]
   \<and> map_option (\<lambda>s. (emitted s, daemonQueue s))
         (snd (run_script 3 [Get 0, AddDaemon (Emit (Lit (Num 3))), Get 0, Get 0] throwing_daemon))
       = Some ([Num 1], [Emit (Lit (Num 3))])"
  by (simp add: throwing_daemon_def eval_simps)

text \<open>
  C6 (amended). Let \<open>executingDaemons\<close> be null when a read starts (no earlier
  flush was ended by an exception) and let the queued daemons, run one after
  the other, each return. Then the read first runs exactly the daemons that
  were queued, each once, in the order of their registration, then reads its
  Variable; the queue afterwards holds what was registered during the flush,
  and \<open>executingDaemons\<close> is null again. While the flush runs, every run of a
  callable leaves the batch alone and only appends to the queue, and a flush
  started from inside it (by a read in a daemon) does nothing: a daemon
  registered during the flush is not run in it. For daemons that push literals
  on the caller's array, register further such daemons and read Variables that
  are not out of date, the flush returns: the values pushed are those of the
  queued daemons, in the order of registration, the queue afterwards holds the
  daemons they registered, and the next flush runs exactly these.
\<close>

theorem system_daemons_fire_once_in_order:
  assumes idle: "executingDaemons s = None"
  shows "(daemons_forEach (exec n) (daemonQueue s) (take_queue s) = Return () r1 \<longrightarrow>
           executeDaemons (exec n) s = Return () (r1\<lparr>executingDaemons := None\<rparr>) \<and>
           exec (Suc n) (Get x) s =
             and_then (sweep (exec n) x (r1\<lparr>executingDaemons := None\<rparr>))
               (\<lambda>_ s2. Return (v_value (heap s2 x)) s2) \<and>
           executingDaemons r1 = Some (daemonQueue s) \<and>
           (\<forall>before d rest. daemonQueue s = before @ d # rest \<longrightarrow>
              (\<exists>t v t'. daemons_forEach (exec n) before (take_queue s) = Return () t \<and>
                        exec n d t = Return v t' \<and>
                        daemons_forEach (exec n) rest t' = Return () r1 \<and>
                        executingDaemons t = Some (daemonQueue s) \<and>
                        executingDaemons t' = Some (daemonQueue s) \<and>
                        (\<exists>added. daemonQueue t' = daemonQueue t @ added))))
       \<and> (\<forall>run t. executingDaemons t \<noteq> None \<longrightarrow> executeDaemons run t = Return () t)
       \<and> ((\<forall>d\<in>set (daemonQueue s). simple s d \<and> cost d \<le> n) \<longrightarrow>
            daemons_forEach (exec n) (daemonQueue s) (take_queue s)
              = Return () ((flushed (daemonQueue s) s)\<lparr>executingDaemons := Some (daemonQueue s)\<rparr>) \<and>
            executeDaemons (exec n) s = Return () (flushed (daemonQueue s) s) \<and>
            executeDaemons (exec n) (flushed (daemonQueue s) s)
              = Return () (flushed (concat (map regs (daemonQueue s))) (flushed (daemonQueue s) s)))"
proof -
  let ?q = "daemonQueue s"
  let ?t = "take_queue s"
  have general: "executeDaemons (exec n) s = Return () (r1\<lparr>executingDaemons := None\<rparr>) \<and>
           exec (Suc n) (Get x) s =
             and_then (sweep (exec n) x (r1\<lparr>executingDaemons := None\<rparr>))
               (\<lambda>_ s2. Return (v_value (heap s2 x)) s2) \<and>
           executingDaemons r1 = Some ?q \<and>
           (\<forall>before d rest. ?q = before @ d # rest \<longrightarrow>
              (\<exists>t v t'. daemons_forEach (exec n) before ?t = Return () t \<and>
                        exec n d t = Return v t' \<and>
                        daemons_forEach (exec n) rest t' = Return () r1 \<and>
                        executingDaemons t = Some ?q \<and>
                        executingDaemons t' = Some ?q \<and>
                        (\<exists>added. daemonQueue t' = daemonQueue t @ added)))"
    if ret: "daemons_forEach (exec n) ?q ?t = Return () r1"
  proof -
    have ex: "executingDaemons ?t = Some ?q" by (simp add: take_queue_def)
    from daemons_forEach_stuck[OF ret] ex have r1: "executingDaemons r1 = Some ?q" by simp
    have fl: "executeDaemons (exec n) s = Return () (r1\<lparr>executingDaemons := None\<rparr>)"
    proof (cases "?q = []")
      case True
      with ret have "r1 = ?t" by simp
      with True idle show ?thesis by (simp add: executeDaemons_def take_queue_def)
    next
      case False
      with idle ret show ?thesis by (simp add: executeDaemons_def take_queue_def)
    qed
    then have rd: "exec (Suc n) (Get x) s =
             and_then (sweep (exec n) x (r1\<lparr>executingDaemons := None\<rparr>))
               (\<lambda>_ s2. Return (v_value (heap s2 x)) s2)"
      by (simp add: get_value_def)
    have each: "\<exists>t v t'. daemons_forEach (exec n) before ?t = Return () t \<and>
                        exec n d t = Return v t' \<and>
                        daemons_forEach (exec n) rest t' = Return () r1 \<and>
                        executingDaemons t = Some ?q \<and>
                        executingDaemons t' = Some ?q \<and>
                        (\<exists>added. daemonQueue t' = daemonQueue t @ added)"
      if q: "?q = before @ d # rest" for before d rest
    proof -
      from ret q have "daemons_forEach (exec n) (before @ d # rest) ?t = Return () r1" by simp
      then obtain t where t: "daemons_forEach (exec n) before ?t = Return () t"
        and rest: "daemons_forEach (exec n) (d # rest) t = Return () r1"
        by (auto simp: daemons_forEach_append and_then_def split: outcome.splits)
      from rest obtain v t' where d: "exec n d t = Return v t'"
        and r: "daemons_forEach (exec n) rest t' = Return () r1"
        unfolding daemons_forEach_Cons by blast
      from daemons_forEach_stuck[OF t] ex have et: "executingDaemons t = Some ?q" by simp
      from keeps_execD(1)[OF engine_rule_flush_stuck d] et
      have "executingDaemons t' = Some ?q" "\<exists>added. daemonQueue t' = daemonQueue t @ added"
        by (simp_all add: flush_stuck_def)
      with t d r et show ?thesis by blast
    qed
    from fl rd r1 each show ?thesis by blast
  qed
  have simple: "daemons_forEach (exec n) ?q ?t
              = Return () ((flushed ?q s)\<lparr>executingDaemons := Some ?q\<rparr>) \<and>
            executeDaemons (exec n) s = Return () (flushed ?q s) \<and>
            executeDaemons (exec n) (flushed ?q s)
              = Return () (flushed (concat (map regs ?q)) (flushed ?q s))"
    if all: "\<forall>d\<in>set ?q. simple s d \<and> cost d \<le> n"
  proof -
    let ?r = "flushed ?q s"
    note 1 = executeDaemons_simple[OF idle all]
    have "\<forall>d\<in>set ?q. simple ?t d \<and> cost d \<le> n"
      using all simple_same[of ?t s] by (simp add: take_queue_def)
    moreover have "executingDaemons ?t \<noteq> None" by (simp add: take_queue_def)
    ultimately have 0: "daemons_forEach (exec n) ?q ?t = Return () (?r\<lparr>executingDaemons := Some ?q\<rparr>)"
      using flush_simple[of ?q ?t n] by (simp add: take_queue_def flushed_def)
    have idle': "executingDaemons ?r = None" using idle by (simp add: flushed_def)
    have all': "\<forall>d\<in>set (daemonQueue ?r). simple ?r d \<and> cost d \<le> n"
    proof
      fix d' assume "d' \<in> set (daemonQueue ?r)"
      then obtain d where d: "d \<in> set ?q" "d' \<in> set (regs d)"
        by (auto simp: flushed_def)
      with all have "simple s d" "cost d \<le> n" by simp_all
      with regs_simple[OF this(1) d(2)] have "simple s d' \<and> cost d' \<le> n" by simp
      then show "simple ?r d' \<and> cost d' \<le> n"
        using simple_same[of ?r s d'] by (simp add: flushed_def)
    qed
    from executeDaemons_simple[OF idle' all']
    have 3: "executeDaemons (exec n) ?r = Return () (flushed (concat (map regs ?q)) ?r)"
      by (simp add: flushed_def)
    from 0 1 3 show ?thesis by simp
  qed
  have busy: "\<forall>run t. executingDaemons t \<noteq> None \<longrightarrow> executeDaemons run t = Return () t"
    by (simp add: executeDaemons_busy)
  from general simple busy show ?thesis by blast
qed

theorem system_daemons_fire_once_in_order_witness:
  "executingDaemons three_daemons = None
   \<and> daemonQueue three_daemons
        = [Emit (Lit (Num 1)), Seq (AddDaemon (Emit (Lit (Num 3)))) (Get 0), Emit (Lit (Num 2))]
   \<and> list_all (\<lambda>d. simple three_daemons d \<and> cost d \<le> 4) (daemonQueue three_daemons)
   \<and> executeDaemons (exec 4) three_daemons
        = Return () (flushed (daemonQueue three_daemons) three_daemons)
   \<and> emitted (flushed (daemonQueue three_daemons) three_daemons) = [Num 1, Num 2]
   \<and> daemonQueue (flushed (daemonQueue three_daemons) three_daemons) = [Emit (Lit (Num 3))]
   \<and> exec 5 (Get 0) three_daemons = Return (Num 0) (flushed (daemonQueue three_daemons) three_daemons)
   \<and> (\<exists>t v t'. daemons_forEach (exec 4) [Emit (Lit (Num 1))] (take_queue three_daemons) = Return () t
         \<and> exec 4 (Seq (AddDaemon (Emit (Lit (Num 3)))) (Get 0)) t = Return v t'
         \<and> executingDaemons t' = Some (daemonQueue three_daemons)
         \<and> daemonQueue t' = [Emit (Lit (Num 3))] \<and> emitted t' = [Num 1])
   \<and> (\<exists>r. executeDaemons (exec 4) (flushed (daemonQueue three_daemons) three_daemons) = Return () r
         \<and> emitted r = [Num 1, Num 2, Num 3] \<and> daemonQueue r = [])
   \<and> map_option emitted (snd (run_script 5 [Get 0, Get 0, Get 0] three_daemons))
        = Some [Num 1, Num 2, Num 3]"
proof -
  let ?s = three_daemons
  let ?q = "daemonQueue ?s"
  let ?r1 = "(flushed ?q ?s)\<lparr>executingDaemons := Some ?q\<rparr>"
  have idle: "executingDaemons ?s = None" by (simp add: three_daemons_def eval_simps)
  have q: "?q = [Emit (Lit (Num 1)), Seq (AddDaemon (Emit (Lit (Num 3)))) (Get 0), Emit (Lit (Num 2))]"
    by (simp add: three_daemons_def eval_simps)
  have q': "?q = [Emit (Lit (Num 1))] @ Seq (AddDaemon (Emit (Lit (Num 3)))) (Get 0) # [Emit (Lit (Num 2))]"
    by (simp add: q)
  have all: "\<forall>d\<in>set ?q. simple ?s d \<and> cost d \<le> 4"
    unfolding q by (simp add: three_daemons_def eval_simps)
  note inst = system_daemons_fire_once_in_order[OF idle, of 4 ?r1 0]
  from inst all
  have f: "daemons_forEach (exec 4) ?q (take_queue ?s) = Return () ?r1"
    "executeDaemons (exec 4) ?s = Return () (flushed ?q ?s)"
    "executeDaemons (exec 4) (flushed ?q ?s)
       = Return () (flushed (concat (map regs ?q)) (flushed ?q ?s))"
    by blast+
  from inst f(1)
  have g: "exec (Suc 4) (Get 0) ?s =
             and_then (sweep (exec 4) 0 (?r1\<lparr>executingDaemons := None\<rparr>))
               (\<lambda>_ s2. Return (v_value (heap s2 0)) s2)"
    "\<forall>before d rest. ?q = before @ d # rest \<longrightarrow>
              (\<exists>t v t'. daemons_forEach (exec 4) before (take_queue ?s) = Return () t \<and>
                        exec 4 d t = Return v t' \<and>
                        daemons_forEach (exec 4) rest t' = Return () ?r1 \<and>
                        executingDaemons t = Some ?q \<and>
                        executingDaemons t' = Some ?q \<and>
                        (\<exists>added. daemonQueue t' = daemonQueue t @ added))"
    by blast+
  have same: "?r1\<lparr>executingDaemons := None\<rparr> = flushed ?q ?s"
    by (simp add: flushed_def three_daemons_def eval_simps)
  have cells: "emitted (flushed ?q ?s) = [Num 1, Num 2]"
    "daemonQueue (flushed ?q ?s) = [Emit (Lit (Num 3))]"
    "\<not> v_outOfDate (heap (flushed ?q ?s) 0)" "demandingVariables (flushed ?q ?s) = []"
    "v_value (heap (flushed ?q ?s) 0) = Num 0"
    by (simp_all add: flushed_def three_daemons_def eval_simps)
  from g(1) cells have rd: "exec 5 (Get 0) ?s = Return (Num 0) (flushed ?q ?s)"
    unfolding same by (simp add: sweep_def updateDependencies_top computeFormula_enter_leave numeral_nat)
  from g(2) q' obtain t v t' where t: "daemons_forEach (exec 4) [Emit (Lit (Num 1))] (take_queue ?s) = Return () t"
    "exec 4 (Seq (AddDaemon (Emit (Lit (Num 3)))) (Get 0)) t = Return v t'"
    "executingDaemons t' = Some ?q" by blast
  have "t = (take_queue ?s)\<lparr>emitted := [Num 1]\<rparr>"
    using t(1) by (simp add: take_queue_def three_daemons_def eval_simps)
  with t(2) have t': "daemonQueue t' = [Emit (Lit (Num 3))]" "emitted t' = [Num 1]"
    by (auto simp: take_queue_def three_daemons_def eval_simps)
  have second: "emitted (flushed (concat (map regs ?q)) (flushed ?q ?s)) = [Num 1, Num 2, Num 3]"
    "daemonQueue (flushed (concat (map regs ?q)) (flushed ?q ?s)) = []"
    by (simp_all add: flushed_def three_daemons_def eval_simps)
  have script: "map_option emitted (snd (run_script 5 [Get 0, Get 0, Get 0] three_daemons))
        = Some [Num 1, Num 2, Num 3]"
    by (simp add: three_daemons_def eval_simps)
  from all have all': "list_all (\<lambda>d. simple ?s d \<and> cost d \<le> 4) ?q" by (simp add: list_all_iff)
  from idle q all' f(2) cells(1,2) rd t t' f(3) second script show ?thesis by blast
qed

subsection \<open>Two Variables whose formulas read each other\<close>

lemma enter_cells [simp]:
  "demandingVariables (enter x s) = demandingVariables s @ [x]"
  "daemonQueue (enter x s) = daemonQueue s"
  "executingDaemons (enter x s) = executingDaemons s"
  "globals (enter x s) = globals s"
  "emitted (enter x s) = emitted s"
  "v_formula (heap (enter x s) y) = v_formula (heap s y)"
  "v_thisFormula (heap (enter x s) y) = v_thisFormula (heap s y)"
  "v_outOfDateDaemon (heap (enter x s) y) = v_outOfDateDaemon (heap s y)"
  "v_value (heap (enter x s) y) = v_value (heap s y)"
  "tick (heap (enter x s) y) = tick (heap s y)"
  "v_dependents (heap (enter x s) y) = v_dependents (heap s y)"
  "v_outOfDate (heap (enter x s) y) = (y \<noteq> x \<and> v_outOfDate (heap s y))"
  by (simp_all add: enter_def)

lemma leave_cells [simp]:
  "demandingVariables (leave x w s) = butlast (demandingVariables s)"
  "daemonQueue (leave x w s) = daemonQueue s"
  "executingDaemons (leave x w s) = executingDaemons s"
  "globals (leave x w s) = globals s"
  "emitted (leave x w s) = emitted s"
  "v_formula (heap (leave x w s) y) = v_formula (heap s y)"
  "v_thisFormula (heap (leave x w s) y) = v_thisFormula (heap s y)"
  "v_outOfDateDaemon (heap (leave x w s) y) = v_outOfDateDaemon (heap s y)"
  "v_value (heap (leave x w s) y) = (if y = x then w else v_value (heap s y))"
  "tick (heap (leave x w s) y) = (if y = x then tick (heap s x) + 1 else tick (heap s y))"
  "v_outOfDate (heap (leave x w s) y) = v_outOfDate (heap s y)"
  by (simp_all add: leave_def Let_def)

lemma enter_live [simp]: "dep_outOfDate (enter x s) dep = dep_outOfDate s dep"
  by (simp add: dep_outOfDate_def)

lemma updateDependencies_live [simp]:
  "dep_outOfDate (updateDependencies x s) dep = dep_outOfDate s dep"
  by (simp add: dep_outOfDate_def)






lemma differ_at_mono: "differ_at {} s r \<Longrightarrow> differ_at X s r"
  by (simp add: differ_at_def)











end
